theory Spec2Isabelle
  imports Main "HOL-Library.Word"
begin

section \<open>Status values, exceptions and the environment of a call\<close>

text \<open>
  The error codes that \<^verbatim>\<open>btree_based_access_method.cpp\<close> tests or produces; every other
  code a collaborator may return is \<open>OtherError\<close>.
\<close>

datatype error_code =
    OK | InternalError | KeyTooLong | DuplicateKey | DuplicateKeyValue | OtherError nat

datatype status = Status (code: error_code) (reason: string)

definition isOK :: "status \<Rightarrow> bool" where
  "isOK s = (code s = OK)"

definition Status_OK :: status where
  "Status_OK = Status OK []"

text \<open>
  A call either returns a status, leaves by an exception, or ends the process at a failed
  \<^verbatim>\<open>invariant\<close>. The exceptions are the two the file deals with: the assertion that
  \<^verbatim>\<open>removeOneKey\<close> catches (and \<^verbatim>\<open>update\<close> lets through), and the interruption raised by
  \<^verbatim>\<open>checkForInterrupt\<close>.
\<close>

datatype exn = AssertionException string | Interrupted

datatype outcome = Returned status | Threw exn | InvariantFailure

text \<open>
  What a call reads from its operation context and from the process: whether the node is
  primary for the namespace, the server parameter \<^verbatim>\<open>failIndexKeyTooLong\<close>, whether the index
  is ready, whether an interrupt is pending when the \<open>i\<close>-th record of a bulk build is about
  to be consumed, and whether the \<open>n\<close>-th attempt of a write-conflict retry loop conflicts.
\<close>

record env =
  isPrimaryFor :: bool
  failIndexKeyTooLong :: bool
  isReady :: bool
  interruptPending :: "nat \<Rightarrow> bool"
  writeConflict :: "nat \<Rightarrow> bool"

record InsertDeleteOptions =
  dupsAllowed :: bool

section \<open>The collaborators and the world they act on\<close>

text \<open>
  The access method works through interfaces declared outside the file: key extraction
  (\<^verbatim>\<open>getKeys\<close>), the sorted data interface with its cursor and its bulk builder, the
  external sorter, \<^verbatim>\<open>BSONObj::woCompare\<close> and the \<^verbatim>\<open>RecordId\<close> constants. They are
  parameters of the model. \<open>'st\<close> is the state of the storage engine (an open bulk builder
  included), \<open>'k\<close> the keys, \<open>'r\<close> the record ids, \<open>'d\<close> the documents, \<open>'o\<close> the ordering
  specifications.

  \<^item> \<open>sdi_unindex\<close> returns \<open>Some what\<close> when it throws an \<^verbatim>\<open>AssertionException\<close>.
  \<^item> \<open>sdi_locate st dir key rid\<close> is the cursor of direction \<open>dir\<close> after
    \<^verbatim>\<open>locate(key, rid)\<close>: \<open>None\<close> when \<^verbatim>\<open>isEOF()\<close>, otherwise \<^verbatim>\<open>getKey()\<close> and
    \<^verbatim>\<open>getRecordId()\<close>.
  \<^item> \<open>woCompare l r ordering considerFieldName\<close> is \<^verbatim>\<open>BSONObj::woCompare\<close> with all
    three arguments.
  \<^item> \<open>keyOrder\<close> is the \<^verbatim>\<open>order()\<close> of the comparator of a default-constructed
    \<^verbatim>\<open>BSONObjSet\<close>, \<open>emptyObj\<close> is \<^verbatim>\<open>BSONObj()\<close>.
\<close>

record ('st, 'k, 'r, 'd, 'o) collaborators =
  getKeys :: "'d \<Rightarrow> 'k list"
  sdi_insert :: "'st \<Rightarrow> 'k \<Rightarrow> 'r \<Rightarrow> bool \<Rightarrow> status \<times> 'st"
  sdi_unindex :: "'st \<Rightarrow> 'k \<Rightarrow> 'r \<Rightarrow> bool \<Rightarrow> string option \<times> 'st"
  sdi_locate :: "'st \<Rightarrow> int \<Rightarrow> 'k \<Rightarrow> 'r \<Rightarrow> ('k \<times> 'r) option"
  sdi_getBulkBuilder :: "'st \<Rightarrow> bool \<Rightarrow> 'st"
  bld_addKey :: "'st \<Rightarrow> 'k \<Rightarrow> 'r \<Rightarrow> status \<times> 'st"
  bld_commit :: "'st \<Rightarrow> bool \<Rightarrow> 'st"
  sorter_done :: "('k \<times> 'r) list \<Rightarrow> ('k \<times> 'r) list"
  woCompare :: "'k \<Rightarrow> 'k \<Rightarrow> 'o \<Rightarrow> bool \<Rightarrow> int"
  keyOrder :: "'o"
  emptyObj :: "'o"
  nullRecordId :: "'r"
  minRecordId :: "'r"

text \<open>
  The calls made on the collaborators, with what they answered, in the order they were
  made. The list is ghost state: the code does not keep it, the model does, so that the
  order of effects can be stated.
\<close>

datatype ('k, 'r) call =
    CallSetMultikey
  | CallInsert 'k 'r bool status
  | CallUnindex 'k 'r bool "string option"
  | CallGetBulkBuilder bool
  | CallAddKey 'k 'r status
  | CallCommit bool

record ('st, 'k, 'r) world =
  store :: 'st
  multikey :: bool
  calls :: "('k, 'r) call list"

text \<open>
  Modelled from the spec: \<^verbatim>\<open>IndexCatalogEntry::setMultikey\<close> is declared outside the file;
  the spec's MultikeyFlag is a per-index boolean that the call sets.
\<close>

definition setMultikey :: "('st, 'k, 'r) world \<Rightarrow> ('st, 'k, 'r) world" where
  "setMultikey w = w\<lparr>multikey := True, calls := calls w @ [CallSetMultikey]\<rparr>"

definition store_insert ::
  "('st, 'k, 'r, 'd, 'o) collaborators \<Rightarrow> 'k \<Rightarrow> 'r \<Rightarrow> bool \<Rightarrow> ('st, 'k, 'r) world
    \<Rightarrow> status \<times> ('st, 'k, 'r) world" where
  "store_insert prm key loc dups w =
     (case sdi_insert prm (store w) key loc dups of
        (st, s') \<Rightarrow> (st, w\<lparr>store := s', calls := calls w @ [CallInsert key loc dups st]\<rparr>))"

definition store_unindex ::
  "('st, 'k, 'r, 'd, 'o) collaborators \<Rightarrow> 'k \<Rightarrow> 'r \<Rightarrow> bool \<Rightarrow> ('st, 'k, 'r) world
    \<Rightarrow> string option \<times> ('st, 'k, 'r) world" where
  "store_unindex prm key loc dups w =
     (case sdi_unindex prm (store w) key loc dups of
        (x, s') \<Rightarrow> (x, w\<lparr>store := s', calls := calls w @ [CallUnindex key loc dups x]\<rparr>))"

definition builder_addKey ::
  "('st, 'k, 'r, 'd, 'o) collaborators \<Rightarrow> 'k \<Rightarrow> 'r \<Rightarrow> ('st, 'k, 'r) world
    \<Rightarrow> status \<times> ('st, 'k, 'r) world" where
  "builder_addKey prm key loc w =
     (case bld_addKey prm (store w) key loc of
        (st, s') \<Rightarrow> (st, w\<lparr>store := s', calls := calls w @ [CallAddKey key loc st]\<rparr>))"

definition getBulkBuilder ::
  "('st, 'k, 'r, 'd, 'o) collaborators \<Rightarrow> bool \<Rightarrow> ('st, 'k, 'r) world \<Rightarrow> ('st, 'k, 'r) world" where
  "getBulkBuilder prm dups w =
     w\<lparr>store := sdi_getBulkBuilder prm (store w) dups,
       calls := calls w @ [CallGetBulkBuilder dups]\<rparr>"

definition builder_commit ::
  "('st, 'k, 'r, 'd, 'o) collaborators \<Rightarrow> bool \<Rightarrow> ('st, 'k, 'r) world \<Rightarrow> ('st, 'k, 'r) world" where
  "builder_commit prm mayInterrupt w =
     w\<lparr>store := bld_commit prm (store w) mayInterrupt,
       calls := calls w @ [CallCommit mayInterrupt]\<rparr>"

section \<open>The mutation applier\<close>

text \<open>\<^verbatim>\<open>BtreeBasedAccessMethod::ignoreKeyTooLong\<close>.\<close>

definition ignoreKeyTooLong :: "env \<Rightarrow> bool" where
  "ignoreKeyTooLong e = (\<not> isPrimaryFor e \<or> \<not> failIndexKeyTooLong e)"

text \<open>
  \<^verbatim>\<open>removeOneKey\<close>: the assertion a failing \<^verbatim>\<open>unindex\<close> throws is caught and logged, and
  the call returns normally either way.
\<close>

definition removeOneKey ::
  "('st, 'k, 'r, 'd, 'o) collaborators \<Rightarrow> 'k \<Rightarrow> 'r \<Rightarrow> bool \<Rightarrow> ('st, 'k, 'r) world
    \<Rightarrow> ('st, 'k, 'r) world" where
  "removeOneKey prm key loc dups w = snd (store_unindex prm key loc dups w)"

text \<open>
  The clean-up loop of \<^verbatim>\<open>insert\<close>, over the keys from \<^verbatim>\<open>keys.begin()\<close> up to the failing
  one: each round removes a key and resets \<^verbatim>\<open>*numInserted\<close>, inside the loop body as the
  code has it.
\<close>

fun insert_cleanup ::
  "('st, 'k, 'r, 'd, 'o) collaborators \<Rightarrow> 'r \<Rightarrow> bool \<Rightarrow> 'k list
    \<Rightarrow> 64 word \<times> ('st, 'k, 'r) world \<Rightarrow> 64 word \<times> ('st, 'k, 'r) world" where
  "insert_cleanup prm loc dups [] (n, w) = (n, w)"
| "insert_cleanup prm loc dups (j # js) (n, w) =
     insert_cleanup prm loc dups js (0, removeOneKey prm j loc dups w)"

text \<open>
  The main loop of \<^verbatim>\<open>insert\<close>. \<open>seen\<close> are the keys before the iterator \<open>i\<close>, the fourth
  list the keys from \<open>i\<close> on. The result is \<open>Some status\<close> when the loop returned early.
\<close>

fun insert_loop ::
  "('st, 'k, 'r, 'd, 'o) collaborators \<Rightarrow> env \<Rightarrow> 'r \<Rightarrow> bool \<Rightarrow> 'k list \<Rightarrow> 'k list
    \<Rightarrow> 64 word \<Rightarrow> ('st, 'k, 'r) world \<Rightarrow> status option \<times> 64 word \<times> ('st, 'k, 'r) world" where
  "insert_loop prm e loc dups seen [] n w = (None, n, w)"
| "insert_loop prm e loc dups seen (i # rest) n w =
     (case store_insert prm i loc dups w of
        (st, w1) \<Rightarrow>
          if isOK st then insert_loop prm e loc dups (seen @ [i]) rest (n + 1) w1
          else if code st = KeyTooLong \<and> ignoreKeyTooLong e
            then insert_loop prm e loc dups (seen @ [i]) rest n w1
          else if code st = DuplicateKeyValue \<and> \<not> isReady e
            then insert_loop prm e loc dups (seen @ [i]) rest n w1
          else (case insert_cleanup prm loc dups seen (n, w1) of
                  (n', w2) \<Rightarrow> (Some st, n', w2)))"

text \<open>
  \<^verbatim>\<open>BtreeBasedAccessMethod::insert\<close>. The result is the status, the value left in
  \<^verbatim>\<open>*numInserted\<close> (which the code zeroes first, so its old value is no input) and the
  world.
\<close>

definition insert_index ::
  "('st, 'k, 'r, 'd, 'o) collaborators \<Rightarrow> env \<Rightarrow> 'd \<Rightarrow> 'r \<Rightarrow> InsertDeleteOptions
    \<Rightarrow> ('st, 'k, 'r) world \<Rightarrow> status \<times> 64 word \<times> ('st, 'k, 'r) world" where
  "insert_index prm e obj loc options w =
     (case insert_loop prm e loc (dupsAllowed options) [] (getKeys prm obj) 0 w of
        (Some st, n, w') \<Rightarrow> (st, n, w')
      | (None, n, w') \<Rightarrow> (Status_OK, n, if 1 <s n then setMultikey w' else w'))"

text \<open>\<^verbatim>\<open>BtreeBasedAccessMethod::remove\<close>.\<close>

fun remove_loop ::
  "('st, 'k, 'r, 'd, 'o) collaborators \<Rightarrow> 'r \<Rightarrow> bool \<Rightarrow> 'k list \<Rightarrow> 64 word
    \<Rightarrow> ('st, 'k, 'r) world \<Rightarrow> 64 word \<times> ('st, 'k, 'r) world" where
  "remove_loop prm loc dups [] n w = (n, w)"
| "remove_loop prm loc dups (i # rest) n w =
     remove_loop prm loc dups rest (n + 1) (removeOneKey prm i loc dups w)"

definition remove_index ::
  "('st, 'k, 'r, 'd, 'o) collaborators \<Rightarrow> 'd \<Rightarrow> 'r \<Rightarrow> InsertDeleteOptions
    \<Rightarrow> ('st, 'k, 'r) world \<Rightarrow> status \<times> 64 word \<times> ('st, 'k, 'r) world" where
  "remove_index prm obj loc options w =
     (case remove_loop prm loc (dupsAllowed options) (getKeys prm obj) 0 w of
        (n, w') \<Rightarrow> (Status_OK, n, w'))"

section \<open>The key delta\<close>

text \<open>
  A \<^verbatim>\<open>BSONObjSet\<close>: the ordering specification of its comparator and its elements in
  iteration order.
\<close>

record ('o, 'k) BSONObjSet =
  key_comp_order :: 'o
  elems :: "'k list"

text \<open>
  The inner loop of \<^verbatim>\<open>setDifference\<close>: \<open>j\<close> moves on while it is not at the end and
  \<^verbatim>\<open>j->woCompare(*i) < 0\<close>.
\<close>

fun advance :: "('k \<Rightarrow> 'k \<Rightarrow> int) \<Rightarrow> 'k \<Rightarrow> 'k list \<Rightarrow> 'k list" where
  "advance cmp i [] = []"
| "advance cmp i (j # js) = (if cmp j i < 0 then advance cmp i js else j # js)"

text \<open>
  The outer loop: the first list is what \<open>i\<close> has still to visit, the second what is left
  from \<open>j\<close> on, the third the \<open>diff\<close> vector.
\<close>

fun setDifference_walk :: "('k \<Rightarrow> 'k \<Rightarrow> int) \<Rightarrow> 'k list \<Rightarrow> 'k list \<Rightarrow> 'k list \<Rightarrow> 'k list" where
  "setDifference_walk cmp [] js diff = diff"
| "setDifference_walk cmp (i # is) js diff =
     (case advance cmp i js of
        [] \<Rightarrow> setDifference_walk cmp is [] (diff @ [i])
      | j # js' \<Rightarrow>
          if cmp i j \<noteq> 0 then setDifference_walk cmp is (j # js') (diff @ [i])
          else setDifference_walk cmp is (j # js') diff)"

text \<open>
  \<^verbatim>\<open>setDifference\<close>: the \<^verbatim>\<open>verify\<close> throws when the two sets do not have the same
  ordering specification.
\<close>

definition setDifference ::
  "('k \<Rightarrow> 'k \<Rightarrow> int) \<Rightarrow> ('o, 'k) BSONObjSet \<Rightarrow> ('o, 'k) BSONObjSet \<Rightarrow> exn + 'k list" where
  "setDifference cmp l r =
     (if key_comp_order l = key_comp_order r
      then Inr (setDifference_walk cmp (elems l) (elems r) [])
      else Inl (AssertionException ''l.key_comp().order() == r.key_comp().order()''))"

text \<open>
  The comparison is a three-way comparison of a total preorder, and a key set is strictly
  ascending in it, as a \<^verbatim>\<open>std::set\<close> ordered by that comparison is.
\<close>

definition three_way :: "('k \<Rightarrow> 'k \<Rightarrow> int) \<Rightarrow> bool" where
  "three_way cmp =
     ((\<forall>a b. (cmp a b < 0) = (0 < cmp b a)) \<and>
      (\<forall>a b c. cmp a b \<le> 0 \<and> cmp b c \<le> 0 \<longrightarrow> cmp a c \<le> 0))"

definition ascending :: "('k \<Rightarrow> 'k \<Rightarrow> int) \<Rightarrow> 'k list \<Rightarrow> bool" where
  "ascending cmp ks = sorted_wrt (\<lambda>a b. cmp a b < 0) ks"

definition order_member :: "('k \<Rightarrow> 'k \<Rightarrow> int) \<Rightarrow> 'k \<Rightarrow> 'k list \<Rightarrow> bool" where
  "order_member cmp x ks = (\<exists>y \<in> set ks. cmp x y = 0)"

definition order_equal :: "('k \<Rightarrow> 'k \<Rightarrow> int) \<Rightarrow> 'k list \<Rightarrow> 'k list \<Rightarrow> bool" where
  "order_equal cmp xs ys =
     ((\<forall>x \<in> set xs. order_member cmp x ys) \<and> (\<forall>y \<in> set ys. order_member cmp y xs))"

text \<open>
  Modelled from the spec: \<^verbatim>\<open>setDifference\<close> calls \<^verbatim>\<open>l.woCompare(r)\<close> with one argument
  and so leaves the ordering and \<^verbatim>\<open>considerFieldName\<close> to the defaults of the declaration
  of \<^verbatim>\<open>BSONObj::woCompare\<close>, outside the file. By the spec the key delta walks the two sets
  in the ordering they share and classifies by order-equality, with field names ignored:
  the call is the comparison under the ordering of the key sets with
  \<^verbatim>\<open>considerFieldName\<close> false.
\<close>

definition woCompare_default :: "('st, 'k, 'r, 'd, 'o) collaborators \<Rightarrow> 'k \<Rightarrow> 'k \<Rightarrow> int" where
  "woCompare_default prm l r = woCompare prm l r (keyOrder prm) False"

section \<open>Update tickets\<close>

text \<open>
  An \<^verbatim>\<open>UpdateTicket\<close> with the \<^verbatim>\<open>BtreeBasedPrivateUpdateData\<close> it owns. \<open>removed\<close> and
  \<open>added\<close> hold pointers into \<open>oldKeys\<close> and \<open>newKeys\<close>; the model holds the keys pointed to.
\<close>

record ('o, 'k, 'r) UpdateTicket =
  isValid :: bool
  oldKeys :: "('o, 'k) BSONObjSet"
  newKeys :: "('o, 'k) BSONObjSet"
  removed :: "'k list"
  added :: "'k list"
  ticket_loc :: 'r
  ticket_dupsAllowed :: bool

text \<open>
  \<^verbatim>\<open>getKeys\<close> into a default-constructed \<^verbatim>\<open>BSONObjSet\<close>.
\<close>

definition getKeySet :: "('st, 'k, 'r, 'd, 'o) collaborators \<Rightarrow> 'd \<Rightarrow> ('o, 'k) BSONObjSet" where
  "getKeySet prm obj = \<lparr>key_comp_order = keyOrder prm, elems = getKeys prm obj\<rparr>"

text \<open>
  \<^verbatim>\<open>validateUpdate\<close> fills the ticket it is given and marks it valid; a failing
  \<^verbatim>\<open>verify\<close> of \<^verbatim>\<open>setDifference\<close> leaves by its exception.
\<close>

definition validateUpdate ::
  "('st, 'k, 'r, 'd, 'o) collaborators \<Rightarrow> 'd \<Rightarrow> 'd \<Rightarrow> 'r \<Rightarrow> InsertDeleteOptions
    \<Rightarrow> exn + (status \<times> ('o, 'k, 'r) UpdateTicket)" where
  "validateUpdate prm from to record options =
     (let old = getKeySet prm from; new = getKeySet prm to in
      case setDifference (woCompare_default prm) old new of
        Inl x \<Rightarrow> Inl x
      | Inr rem \<Rightarrow>
          (case setDifference (woCompare_default prm) new old of
             Inl x \<Rightarrow> Inl x
           | Inr add \<Rightarrow>
               Inr (Status_OK,
                    \<lparr>isValid = True, oldKeys = old, newKeys = new, removed = rem, added = add,
                     ticket_loc = record, ticket_dupsAllowed = dupsAllowed options\<rparr>)))"

text \<open>
  The two loops of \<^verbatim>\<open>update\<close>. \<^verbatim>\<open>unindex\<close> is called directly, so its exception leaves
  the loop and \<^verbatim>\<open>update\<close>; the insertion loop returns at the first status that is not OK.
\<close>

fun update_unindex_loop ::
  "('st, 'k, 'r, 'd, 'o) collaborators \<Rightarrow> 'r \<Rightarrow> bool \<Rightarrow> 'k list \<Rightarrow> ('st, 'k, 'r) world
    \<Rightarrow> string option \<times> ('st, 'k, 'r) world" where
  "update_unindex_loop prm l dups [] w = (None, w)"
| "update_unindex_loop prm l dups (k # ks) w =
     (case store_unindex prm k l dups w of
        (Some what, w1) \<Rightarrow> (Some what, w1)
      | (None, w1) \<Rightarrow> update_unindex_loop prm l dups ks w1)"

fun update_insert_loop ::
  "('st, 'k, 'r, 'd, 'o) collaborators \<Rightarrow> 'r \<Rightarrow> bool \<Rightarrow> 'k list \<Rightarrow> ('st, 'k, 'r) world
    \<Rightarrow> status option \<times> ('st, 'k, 'r) world" where
  "update_insert_loop prm l dups [] w = (None, w)"
| "update_insert_loop prm l dups (k # ks) w =
     (case store_insert prm k l dups w of
        (st, w1) \<Rightarrow> if \<not> isOK st then (Some st, w1) else update_insert_loop prm l dups ks w1)"

text \<open>
  The test of \<^verbatim>\<open>update\<close> for the multikey flag, in \<^verbatim>\<open>size_t\<close> arithmetic.
\<close>

definition update_makes_multikey :: "('o, 'k, 'r) UpdateTicket \<Rightarrow> bool" where
  "update_makes_multikey t =
     (1 < (of_nat (length (elems (oldKeys t))) + of_nat (length (added t))
            - of_nat (length (removed t)) :: 64 word))"

text \<open>
  \<^verbatim>\<open>BtreeBasedAccessMethod::update\<close>. The ticket is a \<^verbatim>\<open>const UpdateTicket&\<close>: it is read
  and not written. \<open>numUpdated\<close> is the value \<^verbatim>\<open>*numUpdated\<close> had before the call; the
  result holds the value it has after.
\<close>

definition update ::
  "('st, 'k, 'r, 'd, 'o) collaborators \<Rightarrow> ('o, 'k, 'r) UpdateTicket \<Rightarrow> 64 word
    \<Rightarrow> ('st, 'k, 'r) world \<Rightarrow> outcome \<times> 64 word \<times> ('st, 'k, 'r) world" where
  "update prm ticket numUpdated w =
     (if \<not> isValid ticket
      then (Returned (Status InternalError ''Invalid UpdateTicket in update''), numUpdated, w)
      else
        let w1 = (if update_makes_multikey ticket then setMultikey w else w) in
        case update_unindex_loop prm (ticket_loc ticket) (ticket_dupsAllowed ticket) (removed ticket) w1 of
          (Some what, w2) \<Rightarrow> (Threw (AssertionException what), numUpdated, w2)
        | (None, w2) \<Rightarrow>
            (case update_insert_loop prm (ticket_loc ticket) (ticket_dupsAllowed ticket) (added ticket) w2 of
               (Some st, w3) \<Rightarrow> (Returned st, numUpdated, w3)
             | (None, w3) \<Rightarrow> (Returned Status_OK, of_nat (length (added ticket)), w3)))"

section \<open>Point lookup\<close>

text \<open>\<^verbatim>\<open>BtreeBasedAccessMethod::findSingle\<close>, with a forward cursor (direction 1).\<close>

definition findSingle ::
  "('st, 'k, 'r, 'd, 'o) collaborators \<Rightarrow> ('st, 'k, 'r) world \<Rightarrow> 'k \<Rightarrow> 'r" where
  "findSingle prm w key =
     (case sdi_locate prm (store w) 1 key (minRecordId prm) of
        None \<Rightarrow> nullRecordId prm
      | Some (k, r) \<Rightarrow>
          if 0 \<noteq> woCompare prm key k (emptyObj prm) False then nullRecordId prm else r)"

section \<open>The bulk builder\<close>

text \<open>
  A \<^verbatim>\<open>BulkBuilder\<close>: what has been added to its sorter, in the order of the calls, and its
  two members.
\<close>

record ('k, 'r) BulkBuilder =
  sorter :: "('k \<times> 'r) list"
  isMultiKey :: bool
  keysInserted :: "64 word"

text \<open>The loop of \<^verbatim>\<open>BulkBuilder::insert\<close> over the keys.\<close>

fun bulk_add_loop :: "'r \<Rightarrow> 'k list \<Rightarrow> ('k, 'r) BulkBuilder \<Rightarrow> ('k, 'r) BulkBuilder" where
  "bulk_add_loop l [] b = b"
| "bulk_add_loop l (k # ks) b =
     bulk_add_loop l ks (b\<lparr>sorter := sorter b @ [(k, l)], keysInserted := keysInserted b + 1\<rparr>)"

text \<open>
  \<^verbatim>\<open>IndexAccessMethod::BulkBuilder::insert\<close>. \<open>numInserted\<close> is \<open>None\<close> for a null pointer;
  the sum \<^verbatim>\<open>*numInserted += keys.size()\<close> is taken in unsigned 64-bit arithmetic. The
  world is threaded through as the operation context is handed to the call.
\<close>

definition BulkBuilder_insert ::
  "('st, 'k, 'r, 'd, 'o) collaborators \<Rightarrow> ('k, 'r) BulkBuilder \<Rightarrow> 'd \<Rightarrow> 'r \<Rightarrow> InsertDeleteOptions
    \<Rightarrow> 64 word option \<Rightarrow> ('st, 'k, 'r) world
    \<Rightarrow> status \<times> ('k, 'r) BulkBuilder \<times> 64 word option \<times> ('st, 'k, 'r) world" where
  "BulkBuilder_insert prm bulk obj l options numInserted w =
     (let keys = getKeys prm obj;
          b1 = bulk\<lparr>isMultiKey := (isMultiKey bulk \<or> 1 < length keys)\<rparr>;
          b2 = bulk_add_loop l keys b1
      in (Status_OK, b2, map_option (\<lambda>n. n + of_nat (length keys)) numInserted, w))"

text \<open>
  Modelled from the spec: \<^verbatim>\<open>MONGO_WRITE_CONFLICT_RETRY_LOOP\<close> is a macro defined outside
  the file. By the spec a unit of work that meets a write conflict is discarded and run
  again from scratch, without a bound on the attempts. The result is the number of the
  attempt that commits; no result when every attempt conflicts.
\<close>

partial_function (option) write_conflict_retry :: "(nat \<Rightarrow> bool) \<Rightarrow> nat \<Rightarrow> nat option" where
  "write_conflict_retry conflict attempts =
     (if conflict attempts then write_conflict_retry conflict (Suc attempts) else Some attempts)"

text \<open>
  The construction loop of \<^verbatim>\<open>commitBulk\<close> over the sorted records; \<open>i\<close> counts the
  records consumed so far. The result is \<open>Some\<close> outcome when the loop was left early.
\<close>

fun bulk_loop ::
  "('st, 'k, 'r, 'd, 'o) collaborators \<Rightarrow> env \<Rightarrow> bool \<Rightarrow> bool \<Rightarrow> ('k \<times> 'r) list \<Rightarrow> nat
    \<Rightarrow> 'r set option \<Rightarrow> ('st, 'k, 'r) world
    \<Rightarrow> outcome option \<times> 'r set option \<times> ('st, 'k, 'r) world" where
  "bulk_loop prm e mayInterrupt dups [] i dupsToDrop w = (None, dupsToDrop, w)"
| "bulk_loop prm e mayInterrupt dups (d # ds) i dupsToDrop w =
     (if mayInterrupt \<and> interruptPending e i then (Some (Threw Interrupted), dupsToDrop, w)
      else
        case builder_addKey prm (fst d) (snd d) w of
          (st, w1) \<Rightarrow>
            if \<not> isOK st then
              (if code st = KeyTooLong \<and> ignoreKeyTooLong e
                 then bulk_loop prm e mayInterrupt dups ds (Suc i) dupsToDrop w1
               else if code st = DuplicateKey then
                 (if dups then (Some InvariantFailure, dupsToDrop, w1)
                  else
                    case dupsToDrop of
                      Some D \<Rightarrow> bulk_loop prm e mayInterrupt dups ds (Suc i) (Some (insert (snd d) D)) w1
                    | None \<Rightarrow> (Some (Returned st), dupsToDrop, w1))
               else (Some (Returned st), dupsToDrop, w1))
            else bulk_loop prm e mayInterrupt dups ds (Suc i) dupsToDrop w1)"

text \<open>
  \<^verbatim>\<open>BtreeBasedAccessMethod::commitBulk\<close>. The result is \<open>None\<close> when the retry loop around
  the first unit of work never commits; otherwise the outcome, the set behind
  \<^verbatim>\<open>dupsToDrop\<close> (\<open>None\<close> for a null pointer) and the world.
\<close>

definition commitBulk ::
  "('st, 'k, 'r, 'd, 'o) collaborators \<Rightarrow> env \<Rightarrow> ('k, 'r) BulkBuilder \<Rightarrow> bool \<Rightarrow> bool
    \<Rightarrow> 'r set option \<Rightarrow> ('st, 'k, 'r) world
    \<Rightarrow> (outcome \<times> 'r set option \<times> ('st, 'k, 'r) world) option" where
  "commitBulk prm e bulk mayInterrupt dups dupsToDrop w =
     (case write_conflict_retry (writeConflict e) 0 of
        None \<Rightarrow> None
      | Some attempt \<Rightarrow>
          let w1 = (if isMultiKey bulk then setMultikey w else w);
              w2 = getBulkBuilder prm dups w1
          in Some (case bulk_loop prm e mayInterrupt dups (sorter_done prm (sorter bulk)) 0
                          dupsToDrop w2 of
                     (Some out, D, w3) \<Rightarrow> (out, D, w3)
                   | (None, D, w3) \<Rightarrow> (Returned Status_OK, D, builder_commit prm mayInterrupt w3)))"

section \<open>A sample instance of the collaborators\<close>

text \<open>
  Modelled from the spec: the sorted data store, its cursor and bulk builder, the key
  extraction and the external sorter of section 6 are declared outside the file. This small
  instance follows the contracts the spec gives them, so that the theorems below can be
  run on concrete inputs; the theorems themselves hold for every instance.

  A document is the list of the values of its indexed field, a key is a field name with a
  value, and a record id is an integer. The store holds its entries ascending by value and
  then by record id. A key is too long when its value is above 1024.
\<close>

type_synonym sample_key = "string \<times> int"

record sample_store =
  entries :: "(sample_key \<times> int) list"
  builderDupsAllowed :: bool

definition sample_cmp :: "sample_key \<Rightarrow> sample_key \<Rightarrow> int" where
  "sample_cmp a b = (if snd a < snd b then - 1 else if snd a = snd b then 0 else 1)"

definition sample_woCompare :: "sample_key \<Rightarrow> sample_key \<Rightarrow> unit \<Rightarrow> bool \<Rightarrow> int" where
  "sample_woCompare a b spec considerFieldName =
     (if sample_cmp a b \<noteq> 0 then sample_cmp a b
      else if considerFieldName \<and> fst a \<noteq> fst b
        then (if length (fst a) \<le> length (fst b) then - 1 else 1)
      else 0)"

definition sample_getKeys :: "int list \<Rightarrow> sample_key list" where
  "sample_getKeys obj = map (\<lambda>v. ([], v)) (sort (remdups obj))"

fun sample_place :: "sample_key \<Rightarrow> int \<Rightarrow> (sample_key \<times> int) list \<Rightarrow> (sample_key \<times> int) list" where
  "sample_place k r [] = [(k, r)]"
| "sample_place k r (e # es) =
     (if snd k < snd (fst e) \<or> (snd k = snd (fst e) \<and> r \<le> snd e)
      then (k, r) # e # es else e # sample_place k r es)"

definition sample_insert ::
  "sample_store \<Rightarrow> sample_key \<Rightarrow> int \<Rightarrow> bool \<Rightarrow> status \<times> sample_store" where
  "sample_insert st k r dups =
     (if 1024 < snd k then (Status KeyTooLong ''key too long'', st)
      else if list_ex (\<lambda>e. snd (fst e) = snd k \<and> snd e = r) (entries st)
        then (Status DuplicateKeyValue ''key/value already in index'', st)
      else if \<not> dups \<and> list_ex (\<lambda>e. snd (fst e) = snd k) (entries st)
        then (Status DuplicateKey ''duplicate key'', st)
      else (Status_OK, st\<lparr>entries := sample_place k r (entries st)\<rparr>))"

definition sample_unindex ::
  "sample_store \<Rightarrow> sample_key \<Rightarrow> int \<Rightarrow> bool \<Rightarrow> string option \<times> sample_store" where
  "sample_unindex st k r dups =
     (None, st\<lparr>entries := filter (\<lambda>e. \<not> (snd (fst e) = snd k \<and> snd e = r)) (entries st)\<rparr>)"

definition sample_locate ::
  "sample_store \<Rightarrow> int \<Rightarrow> sample_key \<Rightarrow> int \<Rightarrow> (sample_key \<times> int) option" where
  "sample_locate st direction k r =
     find (\<lambda>e. snd k < snd (fst e) \<or> (snd k = snd (fst e) \<and> r \<le> snd e)) (entries st)"

definition sample_addKey :: "sample_store \<Rightarrow> sample_key \<Rightarrow> int \<Rightarrow> status \<times> sample_store" where
  "sample_addKey st k r =
     (if 1024 < snd k then (Status KeyTooLong ''key too long'', st)
      else if \<not> builderDupsAllowed st \<and> list_ex (\<lambda>e. snd (fst e) = snd k) (entries st)
        then (Status DuplicateKey ''duplicate key'', st)
      else (Status_OK, st\<lparr>entries := entries st @ [(k, r)]\<rparr>))"

definition sample_prm :: "(sample_store, sample_key, int, int list, unit) collaborators" where
  "sample_prm =
     \<lparr>getKeys = sample_getKeys,
      sdi_insert = sample_insert,
      sdi_unindex = sample_unindex,
      sdi_locate = sample_locate,
      sdi_getBulkBuilder = (\<lambda>st dups. st\<lparr>builderDupsAllowed := dups\<rparr>),
      bld_addKey = sample_addKey,
      bld_commit = (\<lambda>st mayInterrupt. st),
      sorter_done = (\<lambda>xs. foldr (\<lambda>d acc. sample_place (fst d) (snd d) acc) xs []),
      woCompare = sample_woCompare,
      keyOrder = (),
      emptyObj = (),
      nullRecordId = 0,
      minRecordId = - 9223372036854775808\<rparr>"

text \<open>
  The same instance for documents that are given as their key lists, field names kept, and
  an instance whose \<^verbatim>\<open>unindex\<close> throws its assertion and removes nothing.
\<close>

definition sample_named_prm ::
  "(sample_store, sample_key, int, sample_key list, unit) collaborators" where
  "sample_named_prm =
     \<lparr>getKeys = (\<lambda>obj. obj),
      sdi_insert = sample_insert,
      sdi_unindex = sample_unindex,
      sdi_locate = sample_locate,
      sdi_getBulkBuilder = (\<lambda>st dups. st\<lparr>builderDupsAllowed := dups\<rparr>),
      bld_addKey = sample_addKey,
      bld_commit = (\<lambda>st mayInterrupt. st),
      sorter_done = (\<lambda>xs. foldr (\<lambda>d acc. sample_place (fst d) (snd d) acc) xs []),
      woCompare = sample_woCompare,
      keyOrder = (),
      emptyObj = (),
      nullRecordId = 0,
      minRecordId = - 9223372036854775808\<rparr>"

definition faulty_prm :: "(sample_store, sample_key, int, int list, unit) collaborators" where
  "faulty_prm = sample_prm\<lparr>sdi_unindex := (\<lambda>st k r dups. (Some ''unindex failed'', st))\<rparr>"

definition sample_env :: env where
  "sample_env =
     \<lparr>isPrimaryFor = True, failIndexKeyTooLong = True, isReady = True,
      interruptPending = (\<lambda>i. False), writeConflict = (\<lambda>n. n < 2)\<rparr>"

definition sample_world :: "(sample_key \<times> int) list \<Rightarrow> (sample_store, sample_key, int) world" where
  "sample_world es =
     \<lparr>store = \<lparr>entries = es, builderDupsAllowed = False\<rparr>, multikey = False, calls = []\<rparr>"

section \<open>Reading the call list\<close>

text \<open>
  A call in the list is an \<^verbatim>\<open>unindex\<close> (an \<^verbatim>\<open>insert\<close>) of a given key for a given record
  id, whatever it answered.
\<close>

definition is_unindex_of :: "'r \<Rightarrow> bool \<Rightarrow> 'k \<Rightarrow> ('k, 'r) call \<Rightarrow> bool" where
  "is_unindex_of l d k c =
     (case c of CallUnindex k' l' d' x \<Rightarrow> k' = k \<and> l' = l \<and> d' = d | _ \<Rightarrow> False)"

definition is_insert_of :: "'r \<Rightarrow> bool \<Rightarrow> 'k \<Rightarrow> ('k, 'r) call \<Rightarrow> bool" where
  "is_insert_of l d k c =
     (case c of CallInsert k' l' d' st \<Rightarrow> k' = k \<and> l' = l \<and> d' = d | _ \<Rightarrow> False)"

section \<open>Sequences of calls\<close>

text \<open>
  The calls of the access method that act on the world, each with all its arguments, and
  a caller that makes them one after the other, whatever their outcomes. A sequence has no
  resulting world when one of its calls never returns.
\<close>

datatype ('k, 'r, 'd, 'o) op =
    OpInsert env 'd 'r InsertDeleteOptions
  | OpRemove 'd 'r InsertDeleteOptions
  | OpUpdate "('o, 'k, 'r) UpdateTicket" "64 word"
  | OpBulkInsert "('k, 'r) BulkBuilder" 'd 'r InsertDeleteOptions "64 word option"
  | OpCommitBulk env "('k, 'r) BulkBuilder" bool bool "'r set option"

fun run_op ::
  "('st, 'k, 'r, 'd, 'o) collaborators \<Rightarrow> ('k, 'r, 'd, 'o) op \<Rightarrow> ('st, 'k, 'r) world
    \<Rightarrow> ('st, 'k, 'r) world option" where
  "run_op prm (OpInsert e obj l options) w = Some (snd (snd (insert_index prm e obj l options w)))"
| "run_op prm (OpRemove obj l options) w = Some (snd (snd (remove_index prm obj l options w)))"
| "run_op prm (OpUpdate t n) w = Some (snd (snd (update prm t n w)))"
| "run_op prm (OpBulkInsert b obj l options n) w =
     Some (snd (snd (snd (BulkBuilder_insert prm b obj l options n w))))"
| "run_op prm (OpCommitBulk e b mayInterrupt dups sink) w =
     map_option (\<lambda>r. snd (snd r)) (commitBulk prm e b mayInterrupt dups sink w)"

fun run_ops ::
  "('st, 'k, 'r, 'd, 'o) collaborators \<Rightarrow> ('k, 'r, 'd, 'o) op list \<Rightarrow> ('st, 'k, 'r) world
    \<Rightarrow> ('st, 'k, 'r) world option" where
  "run_ops prm [] w = Some w"
| "run_ops prm (x # xs) w =
     (case run_op prm x w of None \<Rightarrow> None | Some w1 \<Rightarrow> run_ops prm xs w1)"

text \<open>
  A call returns unless it is a \<^verbatim>\<open>commitBulk\<close> whose first unit of work conflicts at every
  attempt.
\<close>

fun op_returns :: "('k, 'r, 'd, 'o) op \<Rightarrow> bool" where
  "op_returns (OpCommitBulk e b mayInterrupt dups sink) = (\<exists>n. \<not> writeConflict e n)"
| "op_returns x = True"

section \<open>Facts about the comparison and the merge walk\<close>

lemma tw_flip: "three_way cmp \<Longrightarrow> (cmp a b < 0) = (0 < cmp b a)"
  by (simp add: three_way_def)

lemma tw_sym: "three_way cmp \<Longrightarrow> cmp a b = 0 \<Longrightarrow> cmp b a = 0"
  using tw_flip [of cmp a b] tw_flip [of cmp b a] by linarith

lemma tw_le_trans: "three_way cmp \<Longrightarrow> cmp a b \<le> 0 \<Longrightarrow> cmp b c \<le> 0 \<Longrightarrow> cmp a c \<le> 0"
  unfolding three_way_def by blast

lemma tw_lt_le: "three_way cmp \<Longrightarrow> cmp a b < 0 \<Longrightarrow> cmp b c \<le> 0 \<Longrightarrow> cmp a c < 0"
proof (rule ccontr)
  assume tw: "three_way cmp" and ab: "cmp a b < 0" and bc: "cmp b c \<le> 0" and n: "\<not> cmp a c < 0"
  from n have "cmp c a \<le> 0" using tw_flip [OF tw, of c a] tw_flip [OF tw, of a c] by linarith
  with bc have "cmp b a \<le> 0" using tw_le_trans [OF tw] by blast
  with ab show False using tw_flip [OF tw, of a b] by linarith
qed

lemma tw_refl: "three_way cmp \<Longrightarrow> cmp a a = 0"
  using tw_flip [of cmp a a] by linarith

lemma below_not_equal: "three_way cmp \<Longrightarrow> cmp y x < 0 \<Longrightarrow> cmp x y \<noteq> 0"
  using tw_flip [of cmp y x] by linarith

lemma ascending_Cons: "ascending cmp (x # xs) = ((\<forall>y \<in> set xs. cmp x y < 0) \<and> ascending cmp xs)"
  by (simp add: ascending_def)

lemma ascending_advance: "ascending cmp js \<Longrightarrow> ascending cmp (advance cmp i js)"
  by (induction js) (simp_all add: ascending_Cons)

lemma advance_subset: "y \<in> set (advance cmp i js) \<Longrightarrow> y \<in> set js"
  by (induction js) (auto split: if_splits)

lemma advance_dropped: "y \<in> set js \<Longrightarrow> y \<notin> set (advance cmp i js) \<Longrightarrow> cmp y i < 0"
  by (induction js) (auto split: if_splits)

lemma advance_head: "advance cmp i js = j # js' \<Longrightarrow> \<not> cmp j i < 0"
  by (induction js) (auto split: if_splits)

lemma member_advance:
  assumes tw: "three_way cmp" and le: "cmp i x \<le> 0"
  shows "order_member cmp x (advance cmp i js) = order_member cmp x js"
proof
  assume "order_member cmp x (advance cmp i js)"
  then show "order_member cmp x js" unfolding order_member_def using advance_subset by fast
next
  assume "order_member cmp x js"
  then obtain y where y: "y \<in> set js" "cmp x y = 0" unfolding order_member_def by blast
  have "y \<in> set (advance cmp i js)"
  proof (rule ccontr)
    assume "y \<notin> set (advance cmp i js)"
    with y have "cmp y i < 0" using advance_dropped by fast
    with le have "cmp y x < 0" using tw_lt_le [OF tw] by blast
    with y show False using below_not_equal [OF tw] by blast
  qed
  with y show "order_member cmp x (advance cmp i js)" unfolding order_member_def by blast
qed

lemma member_head:
  assumes tw: "three_way cmp" and asc: "ascending cmp (j # js')" and ge: "\<not> cmp j i < 0"
  shows "order_member cmp i (j # js') = (cmp i j = 0)"
proof
  assume "order_member cmp i (j # js')"
  then obtain y where y: "y \<in> set (j # js')" "cmp i y = 0" unfolding order_member_def by blast
  show "cmp i j = 0"
  proof (cases "y = j")
    case True with y show ?thesis by simp
  next
    case False
    with y asc have "cmp j y < 0" by (auto simp: ascending_Cons)
    moreover from y have "cmp y i \<le> 0" using tw_sym [OF tw, of i y] by simp
    ultimately have "cmp j i < 0" using tw_lt_le [OF tw] by blast
    with ge show ?thesis by simp
  qed
next
  assume "cmp i j = 0" then show "order_member cmp i (j # js')" unfolding order_member_def by simp
qed

lemma walk_filter:
  assumes tw: "three_way cmp"
  shows "ascending cmp is \<Longrightarrow> ascending cmp js \<Longrightarrow>
    setDifference_walk cmp is js diff = diff @ filter (\<lambda>x. \<not> order_member cmp x js) is"
proof (induction "is" arbitrary: js diff)
  case Nil show ?case by simp
next
  case (Cons i "is")
  have asc_is: "ascending cmp is" and above: "\<forall>x \<in> set is. cmp i x < 0"
    using Cons.prems(1) by (simp_all add: ascending_Cons)
  have asc_adv: "ascending cmp (advance cmp i js)"
    using Cons.prems(2) by (rule ascending_advance)
  have later: "\<And>x. x \<in> set is \<Longrightarrow> order_member cmp x (advance cmp i js) = order_member cmp x js"
  proof -
    fix x assume "x \<in> set is"
    then have "cmp i x \<le> 0" using above by fastforce
    then show "order_member cmp x (advance cmp i js) = order_member cmp x js"
      by (rule member_advance [OF tw])
  qed
  have self: "order_member cmp i (advance cmp i js) = order_member cmp i js"
    by (rule member_advance [OF tw]) (simp add: tw_refl [OF tw])
  have filt: "filter (\<lambda>x. \<not> order_member cmp x (advance cmp i js)) is
      = filter (\<lambda>x. \<not> order_member cmp x js) is"
    by (rule filter_cong) (simp_all add: later)
  show ?case
  proof (cases "advance cmp i js")
    case Nil
    have nm: "\<not> order_member cmp i js" using self Nil by (simp add: order_member_def)
    have "setDifference_walk cmp is [] (diff @ [i])
        = (diff @ [i]) @ filter (\<lambda>x. \<not> order_member cmp x []) is"
      by (rule Cons.IH [OF asc_is]) (simp add: ascending_def)
    then have "setDifference_walk cmp (i # is) js diff
        = (diff @ [i]) @ filter (\<lambda>x. \<not> order_member cmp x (advance cmp i js)) is"
      using Nil by simp
    then show ?thesis using nm by (simp add: filt)
  next
    case (Cons j js')
    have ge: "\<not> cmp j i < 0" using Cons by (rule advance_head)
    have asc_j: "ascending cmp (j # js')" using asc_adv Cons by simp
    have mem: "order_member cmp i js = (cmp i j = 0)"
      using member_head [OF tw asc_j ge] self Cons by simp
    have ih: "\<And>d. setDifference_walk cmp is (j # js') d
        = d @ filter (\<lambda>x. \<not> order_member cmp x (advance cmp i js)) is"
      using Cons.IH [OF asc_is asc_j] Cons by simp
    show ?thesis
    proof (cases "cmp i j = 0")
      case True
      then have "setDifference_walk cmp (i # is) js diff = setDifference_walk cmp is (j # js') diff"
        using Cons by simp
      then show ?thesis using True mem by (simp add: ih filt)
    next
      case False
      then have "setDifference_walk cmp (i # is) js diff = setDifference_walk cmp is (j # js') (diff @ [i])"
        using Cons by simp
      then show ?thesis using False mem by (simp add: ih filt)
    qed
  qed
qed

lemma ascending_filter: "ascending cmp xs \<Longrightarrow> ascending cmp (filter P xs)"
  by (simp add: ascending_def sorted_wrt_filter)

lemma order_member_self: "three_way cmp \<Longrightarrow> x \<in> set xs \<Longrightarrow> order_member cmp x xs"
  unfolding order_member_def using tw_refl by fast

lemma delta_order_equal:
  assumes tw: "three_way cmp"
    and rem: "rem = filter (\<lambda>x. \<not> order_member cmp x new) old"
    and add: "add = filter (\<lambda>x. \<not> order_member cmp x old) new"
  shows "order_equal cmp (filter (\<lambda>x. x \<notin> set rem) old @ add) new"
proof -
  let ?kept = "filter (\<lambda>x. x \<notin> set rem) old"
  have kept: "\<And>x. x \<in> set ?kept \<longleftrightarrow> x \<in> set old \<and> order_member cmp x new"
    using rem by auto
  have "\<forall>x \<in> set (?kept @ add). order_member cmp x new"
  proof
    fix x assume "x \<in> set (?kept @ add)"
    then consider "x \<in> set ?kept" | "x \<in> set add" by auto
    then show "order_member cmp x new"
    proof cases
      case 1 then show ?thesis using kept by blast
    next
      case 2 then have "x \<in> set new" using add by simp
      then show ?thesis by (rule order_member_self [OF tw])
    qed
  qed
  moreover have "\<forall>y \<in> set new. order_member cmp y (?kept @ add)"
  proof
    fix y assume y: "y \<in> set new"
    show "order_member cmp y (?kept @ add)"
    proof (cases "order_member cmp y old")
      case True
      then obtain x where x: "x \<in> set old" "cmp y x = 0" unfolding order_member_def by blast
      then have "cmp x y = 0" using tw_sym [OF tw] by blast
      with y have "order_member cmp x new" unfolding order_member_def by blast
      with x have "x \<in> set ?kept" using kept by blast
      with x show ?thesis unfolding order_member_def by auto
    next
      case False
      with y have "y \<in> set add" using add by simp
      then have "y \<in> set (?kept @ add)" by simp
      then show ?thesis by (rule order_member_self [OF tw])
    qed
  qed
  ultimately show ?thesis unfolding order_equal_def by blast
qed

lemma setDifference_filter:
  assumes tw: "three_way cmp"
    and same: "key_comp_order old = key_comp_order new"
    and asc_old: "ascending cmp (elems old)"
    and asc_new: "ascending cmp (elems new)"
  shows "setDifference cmp old new
      = Inr (filter (\<lambda>x. \<not> order_member cmp x (elems new)) (elems old))"
  using walk_filter [OF tw asc_old asc_new, of "[]"] same by (simp add: setDifference_def)

text \<open>
  Claim C2. Let the keys of the old and of the new document both be strictly ascending
  in the comparison of the walk, which leaves field names out. Then \<^verbatim>\<open>validateUpdate\<close>
  returns OK with a valid ticket that holds the two key sets, the record id and the
  option, and whose delta is this: \<open>removed\<close> are exactly the old keys to which no new key
  compares equal with field names ignored, in the order of the old keys; \<open>added\<close> are
  exactly the new keys to which no old key compares equal with field names ignored, in the
  order of the new keys. So the old keys without \<open>removed\<close>, together with \<open>added\<close>, are
  order-equal to the new keys; no added key is order-equal to an old key and no removed
  key to a new key; and both sequences are ascending.
\<close>

theorem validateUpdate_delta:
  assumes tw: "three_way (woCompare_default prm)"
    and asc_old: "ascending (woCompare_default prm) (getKeys prm obj_from)"
    and asc_new: "ascending (woCompare_default prm) (getKeys prm obj_to)"
  shows "\<exists>t.
      validateUpdate prm obj_from obj_to rid options = Inr (Status_OK, t) \<and>
      isValid t \<and> oldKeys t = getKeySet prm obj_from \<and> newKeys t = getKeySet prm obj_to \<and>
      ticket_loc t = rid \<and> ticket_dupsAllowed t = dupsAllowed options \<and>
      removed t = filter (\<lambda>x. \<forall>y \<in> set (getKeys prm obj_to).
                     woCompare prm x y (keyOrder prm) False \<noteq> 0) (getKeys prm obj_from) \<and>
      added t = filter (\<lambda>x. \<forall>y \<in> set (getKeys prm obj_from).
                     woCompare prm x y (keyOrder prm) False \<noteq> 0) (getKeys prm obj_to) \<and>
      order_equal (woCompare_default prm)
        (filter (\<lambda>x. x \<notin> set (removed t)) (getKeys prm obj_from) @ added t)
        (getKeys prm obj_to) \<and>
      (\<forall>a \<in> set (added t). \<not> order_member (woCompare_default prm) a (getKeys prm obj_from)) \<and>
      (\<forall>r \<in> set (removed t). \<not> order_member (woCompare_default prm) r (getKeys prm obj_to)) \<and>
      ascending (woCompare_default prm) (removed t) \<and>
      ascending (woCompare_default prm) (added t)"
proof -
  let ?cmp = "woCompare_default prm"
  let ?old = "getKeySet prm obj_from" and ?new = "getKeySet prm obj_to"
  let ?rem = "filter (\<lambda>x. \<not> order_member ?cmp x (getKeys prm obj_to)) (getKeys prm obj_from)"
  let ?add = "filter (\<lambda>x. \<not> order_member ?cmp x (getKeys prm obj_from)) (getKeys prm obj_to)"
  let ?t = "\<lparr>isValid = True, oldKeys = ?old, newKeys = ?new, removed = ?rem, added = ?add,
      ticket_loc = rid, ticket_dupsAllowed = dupsAllowed options\<rparr>"
  have same: "key_comp_order ?old = key_comp_order ?new" by (simp add: getKeySet_def)
  have eo: "elems ?old = getKeys prm obj_from" and en: "elems ?new = getKeys prm obj_to"
    by (simp_all add: getKeySet_def)
  have r: "setDifference ?cmp ?old ?new = Inr ?rem"
    using setDifference_filter [OF tw same, unfolded eo en, OF asc_old asc_new] .
  have a: "setDifference ?cmp ?new ?old = Inr ?add"
    using setDifference_filter [OF tw same [symmetric], unfolded eo en, OF asc_new asc_old] .
  have res: "validateUpdate prm obj_from obj_to rid options = Inr (Status_OK, ?t)"
    by (simp add: validateUpdate_def Let_def r a)
  have mem: "\<And>x ys. (\<not> order_member ?cmp x ys)
      = (\<forall>y \<in> set ys. woCompare prm x y (keyOrder prm) False \<noteq> 0)"
    by (simp add: order_member_def woCompare_default_def)
  have rem: "removed ?t = filter (\<lambda>x. \<forall>y \<in> set (getKeys prm obj_to).
                     woCompare prm x y (keyOrder prm) False \<noteq> 0) (getKeys prm obj_from)"
    by (simp add: mem)
  have add: "added ?t = filter (\<lambda>x. \<forall>y \<in> set (getKeys prm obj_from).
                     woCompare prm x y (keyOrder prm) False \<noteq> 0) (getKeys prm obj_to)"
    by (simp add: mem)
  have oe: "order_equal ?cmp (filter (\<lambda>x. x \<notin> set (removed ?t)) (getKeys prm obj_from) @ added ?t)
      (getKeys prm obj_to)"
    using delta_order_equal [OF tw refl refl, of "getKeys prm obj_to" "getKeys prm obj_from"] by simp
  have d1: "\<forall>a \<in> set (added ?t). \<not> order_member ?cmp a (getKeys prm obj_from)" by simp
  have d2: "\<forall>r \<in> set (removed ?t). \<not> order_member ?cmp r (getKeys prm obj_to)" by simp
  have s1: "ascending ?cmp (removed ?t)" using asc_old by (simp add: ascending_filter)
  have s2: "ascending ?cmp (added ?t)" using asc_new by (simp add: ascending_filter)
  have v: "isValid ?t" "oldKeys ?t = ?old" "newKeys ?t = ?new" "ticket_loc ?t = rid"
      "ticket_dupsAllowed ?t = dupsAllowed options" by simp_all
  from res v rem add oe d1 d2 s1 s2 show ?thesis by (intro exI [of _ ?t] conjI)
qed

lemma three_way_sample_cmp: "three_way sample_cmp"
  by (auto simp: three_way_def sample_cmp_def)

lemma woCompare_default_sample_named: "woCompare_default sample_named_prm = sample_cmp"
  by (rule ext, rule ext)
     (simp add: woCompare_default_def sample_named_prm_def sample_woCompare_def)

text \<open>
  The theorem on documents whose keys differ in their field names: the keys with values
  2 and 3 are in neither part of the delta, although their names differ.
\<close>

theorem validateUpdate_delta_witness:
  "three_way (woCompare_default sample_named_prm) \<and>
   ascending (woCompare_default sample_named_prm)
     (getKeys sample_named_prm [(''a'', 1), (''a'', 2), (''a'', 3)]) \<and>
   ascending (woCompare_default sample_named_prm)
     (getKeys sample_named_prm [(''b'', 2), (''b'', 3), (''b'', 5)]) \<and>
   validateUpdate sample_named_prm [(''a'', 1), (''a'', 2), (''a'', 3)]
       [(''b'', 2), (''b'', 3), (''b'', 5)] 7 \<lparr>dupsAllowed = False\<rparr>
     = Inr (Status_OK,
        \<lparr>isValid = True,
         oldKeys = \<lparr>key_comp_order = (), elems = [(''a'', 1), (''a'', 2), (''a'', 3)]\<rparr>,
         newKeys = \<lparr>key_comp_order = (), elems = [(''b'', 2), (''b'', 3), (''b'', 5)]\<rparr>,
         removed = [(''a'', 1)], added = [(''b'', 5)],
         ticket_loc = 7, ticket_dupsAllowed = False\<rparr>)"
proof -
  let ?from = "[(''a'', 1), (''a'', 2), (''a'', 3)] :: sample_key list"
  let ?to = "[(''b'', 2), (''b'', 3), (''b'', 5)] :: sample_key list"
  have tw: "three_way (woCompare_default sample_named_prm)"
    unfolding woCompare_default_sample_named by (rule three_way_sample_cmp)
  have gf: "getKeys sample_named_prm ?from = ?from" and gt: "getKeys sample_named_prm ?to = ?to"
    by (simp_all add: sample_named_prm_def)
  have o: "ascending (woCompare_default sample_named_prm) (getKeys sample_named_prm ?from)"
    unfolding woCompare_default_sample_named gf by (simp add: ascending_def sample_cmp_def)
  have n: "ascending (woCompare_default sample_named_prm) (getKeys sample_named_prm ?to)"
    unfolding woCompare_default_sample_named gt by (simp add: ascending_def sample_cmp_def)
  obtain t where t:
      "validateUpdate sample_named_prm ?from ?to 7 \<lparr>dupsAllowed = False\<rparr> = Inr (Status_OK, t)"
      "isValid t" "oldKeys t = getKeySet sample_named_prm ?from"
      "newKeys t = getKeySet sample_named_prm ?to"
      "ticket_loc t = 7" "ticket_dupsAllowed t = dupsAllowed \<lparr>dupsAllowed = False\<rparr>"
      "removed t = filter (\<lambda>x. \<forall>y \<in> set (getKeys sample_named_prm ?to).
           woCompare sample_named_prm x y (keyOrder sample_named_prm) False \<noteq> 0)
           (getKeys sample_named_prm ?from)"
      "added t = filter (\<lambda>x. \<forall>y \<in> set (getKeys sample_named_prm ?from).
           woCompare sample_named_prm x y (keyOrder sample_named_prm) False \<noteq> 0)
           (getKeys sample_named_prm ?to)"
    using validateUpdate_delta [OF tw o n, of 7 "\<lparr>dupsAllowed = False\<rparr>"] by (elim exE conjE)
  have r: "removed t = [(''a'', 1)]"
    unfolding t(7) gf gt by (simp add: sample_named_prm_def sample_woCompare_def sample_cmp_def)
  have a: "added t = [(''b'', 5)]"
    unfolding t(8) gf gt by (simp add: sample_named_prm_def sample_woCompare_def sample_cmp_def)
  have ok: "oldKeys t = \<lparr>key_comp_order = (), elems = ?from\<rparr>"
    unfolding t(3) by (simp add: getKeySet_def sample_named_prm_def)
  have nk: "newKeys t = \<lparr>key_comp_order = (), elems = ?to\<rparr>"
    unfolding t(4) by (simp add: getKeySet_def sample_named_prm_def)
  have "t = \<lparr>isValid = True, oldKeys = \<lparr>key_comp_order = (), elems = ?from\<rparr>,
         newKeys = \<lparr>key_comp_order = (), elems = ?to\<rparr>,
         removed = [(''a'', 1)], added = [(''b'', 5)],
         ticket_loc = 7, ticket_dupsAllowed = False\<rparr>"
    using t(2,5,6) r a ok nk by (cases t) simp
  then show ?thesis using t(1) tw o n by simp
qed

section \<open>Insert\<close>

lemmas sample_defs =
  sample_prm_def sample_env_def sample_world_def sample_getKeys_def sample_insert_def
  sample_unindex_def sample_locate_def sample_addKey_def sample_cmp_def sample_woCompare_def
  store_insert_def store_unindex_def builder_addKey_def getBulkBuilder_def builder_commit_def
  setMultikey_def removeOneKey_def isOK_def Status_OK_def ignoreKeyTooLong_def

lemma removeOneKey_calls:
  "calls (removeOneKey prm k loc d w)
     = calls w @ [CallUnindex k loc d (fst (sdi_unindex prm (store w) k loc d))]"
  by (simp add: removeOneKey_def store_unindex_def split: prod.split)

lemma removeOneKey_store:
  "store (removeOneKey prm k loc d w) = snd (sdi_unindex prm (store w) k loc d)"
  by (simp add: removeOneKey_def store_unindex_def split: prod.split)

lemma removeOneKey_multikey: "multikey (removeOneKey prm k loc d w) = multikey w"
  by (simp add: removeOneKey_def store_unindex_def split: prod.split)

lemma insert_cleanup_count:
  "fst (insert_cleanup prm loc d js (n, w)) = (if js = [] then n else 0)"
  by (induction js arbitrary: n w) simp_all

lemma insert_cleanup_store:
  "store (snd (insert_cleanup prm loc d js (n, w)))
     = foldl (\<lambda>s j. snd (sdi_unindex prm s j loc d)) (store w) js"
  by (induction js arbitrary: n w) (simp_all add: removeOneKey_store)

lemma insert_cleanup_multikey:
  "multikey (snd (insert_cleanup prm loc d js (n, w))) = multikey w"
  by (induction js arbitrary: n w) (simp_all add: removeOneKey_multikey)

lemma insert_cleanup_calls:
  "\<exists>outs. list_all2 (is_unindex_of loc d) js outs \<and>
      calls (snd (insert_cleanup prm loc d js (n, w))) = calls w @ outs"
proof (induction js arbitrary: n w)
  case Nil
  show ?case by simp
next
  case (Cons j js)
  let ?w = "removeOneKey prm j loc d w"
  let ?c = "CallUnindex j loc d (fst (sdi_unindex prm (store w) j loc d))"
  from Cons.IH [where n = 0 and w = ?w]
  obtain outs where o: "list_all2 (is_unindex_of loc d) js outs"
      "calls (snd (insert_cleanup prm loc d js (0, ?w))) = calls ?w @ outs"
    by (elim exE conjE)
  have "list_all2 (is_unindex_of loc d) (j # js) (?c # outs)"
    using o(1) by (simp add: is_unindex_of_def)
  moreover have "calls (snd (insert_cleanup prm loc d (j # js) (n, w))) = calls w @ (?c # outs)"
    using o(2) by (simp add: removeOneKey_calls)
  ultimately show ?case by (intro exI conjI)
qed

lemma store_insert_multikey: "store_insert prm k loc d w = (st, w1) \<Longrightarrow> multikey w1 = multikey w"
  by (auto simp: store_insert_def split: prod.splits)

lemma insert_loop_fatal:
  assumes "store_insert prm i loc d w = (st, w1)" and "\<not> isOK st"
    and "\<not> (code st = KeyTooLong \<and> ignoreKeyTooLong e)"
    and "\<not> (code st = DuplicateKeyValue \<and> \<not> isReady e)"
  shows "insert_loop prm e loc d seen (i # rest) n w
      = (Some st, insert_cleanup prm loc d seen (n, w1))"
  by (simp add: assms)

lemma insert_loop_continue:
  assumes "store_insert prm i loc d w = (st, w1)"
    and "isOK st \<or> (code st = KeyTooLong \<and> ignoreKeyTooLong e)
          \<or> (code st = DuplicateKeyValue \<and> \<not> isReady e)"
  shows "insert_loop prm e loc d seen (i # rest) n w
      = insert_loop prm e loc d (seen @ [i]) rest (if isOK st then n + 1 else n) w1"
proof (cases "isOK st")
  case True
  then show ?thesis by (simp add: assms(1))
next
  case False
  show ?thesis
  proof (cases "code st = KeyTooLong \<and> ignoreKeyTooLong e")
    case True
    then show ?thesis using False by (simp add: assms(1))
  next
    case ktl: False
    then have "code st = DuplicateKeyValue \<and> \<not> isReady e" using assms(2) False by blast
    then show ?thesis using False by (simp add: assms(1))
  qed
qed

lemma insert_loop_append:
  "insert_loop prm e loc d seen pre n w = (None, n1, w1) \<Longrightarrow>
   insert_loop prm e loc d seen (pre @ rest) n w = insert_loop prm e loc d (seen @ pre) rest n1 w1"
proof (induction pre arbitrary: seen n w)
  case Nil
  then show ?case by simp
next
  case (Cons k pre)
  obtain st wa where s: "store_insert prm k loc d w = (st, wa)" by (cases "store_insert prm k loc d w")
  show ?case
  proof (cases "isOK st \<or> (code st = KeyTooLong \<and> ignoreKeyTooLong e)
          \<or> (code st = DuplicateKeyValue \<and> \<not> isReady e)")
    case True
    let ?n = "if isOK st then n + 1 else n"
    have "insert_loop prm e loc d (seen @ [k]) pre ?n wa = (None, n1, w1)"
      using Cons.prems insert_loop_continue [OF s True] by simp
    then have "insert_loop prm e loc d (seen @ [k]) (pre @ rest) ?n wa
        = insert_loop prm e loc d ((seen @ [k]) @ pre) rest n1 w1"
      by (rule Cons.IH)
    moreover have "insert_loop prm e loc d seen ((k # pre) @ rest) n w
        = insert_loop prm e loc d (seen @ [k]) (pre @ rest) ?n wa"
      using insert_loop_continue [OF s True] by simp
    ultimately show ?thesis by simp
  next
    case False
    then have "insert_loop prm e loc d seen (k # pre) n w
        = (Some st, insert_cleanup prm loc d seen (n, wa))"
      using insert_loop_fatal [OF s] by blast
    with Cons.prems show ?thesis by simp
  qed
qed

lemma insert_loop_multikey:
  "insert_loop prm e loc d seen ks n w = (r, n1, w1) \<Longrightarrow> multikey w1 = multikey w"
proof (induction ks arbitrary: seen n w)
  case Nil
  then show ?case by simp
next
  case (Cons k ks)
  obtain st wa where s: "store_insert prm k loc d w = (st, wa)" by (cases "store_insert prm k loc d w")
  have m: "multikey wa = multikey w" using s by (rule store_insert_multikey)
  show ?case
  proof (cases "isOK st \<or> (code st = KeyTooLong \<and> ignoreKeyTooLong e)
          \<or> (code st = DuplicateKeyValue \<and> \<not> isReady e)")
    case True
    have "insert_loop prm e loc d (seen @ [k]) ks (if isOK st then n + 1 else n) wa = (r, n1, w1)"
      using Cons.prems insert_loop_continue [OF s True] by simp
    then have "multikey w1 = multikey wa" by (rule Cons.IH)
    with m show ?thesis by simp
  next
    case False
    then have "insert_loop prm e loc d seen (k # ks) n w
        = (Some st, insert_cleanup prm loc d seen (n, wa))"
      using insert_loop_fatal [OF s] by blast
    with Cons.prems have "(r, n1, w1) = (Some st, insert_cleanup prm loc d seen (n, wa))"
      by (simp only:)
    then have "w1 = snd (insert_cleanup prm loc d seen (n, wa))"
      by (metis snd_conv)
    moreover have "multikey (snd (insert_cleanup prm loc d seen (n, wa))) = multikey wa"
      by (rule insert_cleanup_multikey)
    ultimately show ?thesis using m by simp
  qed
qed

text \<open>
  What the clean-up leaves in a store that honours \<^verbatim>\<open>unindex\<close>: when unindexing a key
  for the record id makes the store stop holding it, and never makes the store hold a key
  it did not hold, then after the clean-up the store holds none of the keys it went over.
\<close>

lemma cleanup_clears_store:
  assumes gone: "\<And>s k. \<not> holds (snd (sdi_unindex prm s k loc d)) k"
    and stays: "\<And>s k k'. \<not> holds s k' \<Longrightarrow> \<not> holds (snd (sdi_unindex prm s k loc d)) k'"
  shows "\<forall>k \<in> set pre. \<not> holds (foldl (\<lambda>s j. snd (sdi_unindex prm s j loc d)) s0 pre) k"
proof (induction pre rule: rev_induct)
  case Nil
  show ?case by simp
next
  case (snoc j pre)
  let ?s = "foldl (\<lambda>s j. snd (sdi_unindex prm s j loc d)) s0 pre"
  have "\<not> holds (snd (sdi_unindex prm ?s j loc d)) j" by (rule gone)
  moreover have "\<forall>k \<in> set pre. \<not> holds (snd (sdi_unindex prm ?s j loc d)) k"
    using snoc.IH stays by blast
  ultimately show ?case by simp
qed

text \<open>
  Claim C1, as the code has it. Let the keys of the document be \<open>pre @ k # post\<close>. If the
  keys of \<open>pre\<close> went through the loop without a fatal failure, and the store then answers
  the insertion of \<open>k\<close> with a status that is not OK, is not a tolerated KeyTooLong and is
  not a DuplicateKeyValue during a background build, then \<^verbatim>\<open>insert\<close> returns that very
  status with \<^verbatim>\<open>*numInserted = 0\<close>, and after the failing insertion it makes exactly one
  \<^verbatim>\<open>unindex\<close> call for each key of \<open>pre\<close>, in order, and no other call; the multikey
  flag is as before the call. The store is the one after the failing insertion with these
  calls applied. When \<^verbatim>\<open>unindex\<close> honours its contract for the record id (after it the
  store does not hold the key, and it never makes the store hold a key it did not hold),
  the store then holds none of the keys of \<open>pre\<close>. \<open>holds\<close> is any reading of the store
  that meets this contract.
\<close>

theorem insert_all_or_nothing:
  assumes keys: "getKeys prm obj = pre @ k # post"
    and earlier: "insert_loop prm e loc (dupsAllowed options) [] pre 0 w = (None, n1, w1)"
    and failing: "store_insert prm k loc (dupsAllowed options) w1 = (st, w2)"
    and not_ok: "\<not> isOK st"
    and not_too_long: "\<not> (code st = KeyTooLong \<and> ignoreKeyTooLong e)"
    and not_dup: "\<not> (code st = DuplicateKeyValue \<and> \<not> isReady e)"
    and gone: "\<forall>s j. \<not> holds (snd (sdi_unindex prm s j loc (dupsAllowed options))) j"
    and stays: "\<forall>s j j'. \<not> holds s j' \<longrightarrow>
        \<not> holds (snd (sdi_unindex prm s j loc (dupsAllowed options))) j'"
  shows "\<exists>w' outs.
      insert_index prm e obj loc options w = (st, 0, w') \<and>
      calls w' = calls w2 @ outs \<and>
      list_all2 (is_unindex_of loc (dupsAllowed options)) pre outs \<and>
      store w' = foldl (\<lambda>s j. snd (sdi_unindex prm s j loc (dupsAllowed options))) (store w2) pre \<and>
      multikey w' = multikey w \<and>
      (\<forall>j \<in> set pre. \<not> holds (store w') j)"
proof -
  let ?d = "dupsAllowed options"
  let ?c = "insert_cleanup prm loc ?d pre (n1, w2)"
  have step: "insert_loop prm e loc ?d ([] @ pre) (k # post) n1 w1 = (Some st, fst ?c, snd ?c)"
    using insert_loop_fatal [OF failing not_ok not_too_long not_dup] by simp
  have loop: "insert_loop prm e loc ?d [] (pre @ k # post) 0 w = (Some st, fst ?c, snd ?c)"
    using insert_loop_append [OF earlier, of "k # post"] step by (simp only:)
  have n1: "pre = [] \<Longrightarrow> n1 = 0" using earlier by simp
  have count: "fst ?c = 0" using n1 by (simp add: insert_cleanup_count)
  have res: "insert_index prm e obj loc options w = (st, 0, snd ?c)"
    using loop count keys by (simp add: insert_index_def)
  obtain outs where o: "list_all2 (is_unindex_of loc ?d) pre outs"
      "calls (snd ?c) = calls w2 @ outs"
    using insert_cleanup_calls [where js = pre and n = n1 and w = w2 and prm = prm and loc = loc
        and d = ?d]
    by (elim exE conjE)
  have st: "store (snd ?c) = foldl (\<lambda>s j. snd (sdi_unindex prm s j loc ?d)) (store w2) pre"
    by (rule insert_cleanup_store)
  have "multikey w2 = multikey w1" using failing by (rule store_insert_multikey)
  moreover have "multikey w1 = multikey w" using earlier by (rule insert_loop_multikey)
  ultimately have mk: "multikey (snd ?c) = multikey w" by (simp add: insert_cleanup_multikey)
  have clear: "\<forall>j \<in> set pre. \<not> holds (store (snd ?c)) j"
    unfolding st
  proof (rule cleanup_clears_store)
    show "\<And>s j. \<not> holds (snd (sdi_unindex prm s j loc ?d)) j" using gone by simp
    show "\<And>s j j'. \<not> holds s j' \<Longrightarrow> \<not> holds (snd (sdi_unindex prm s j loc ?d)) j'"
      using stays by simp
  qed
  from res o st mk clear show ?thesis by (intro exI conjI)
qed

text \<open>
  The theorem on the sample store, where a store holds a key when it has an entry with
  the value of the key for record 7: the third key of the document is too long on a
  primary that fails on long keys, and the two keys inserted before it are gone again.
\<close>

theorem insert_all_or_nothing_witness:
  "getKeys sample_prm [1, 2, 2000] = [([], 1), ([], 2)] @ ([], 2000) # [] \<and>
   fst (insert_index sample_prm sample_env [1, 2, 2000] 7 \<lparr>dupsAllowed = False\<rparr> (sample_world []))
     = Status KeyTooLong ''key too long'' \<and>
   fst (snd (insert_index sample_prm sample_env [1, 2, 2000] 7 \<lparr>dupsAllowed = False\<rparr>
     (sample_world []))) = 0 \<and>
   entries (store (snd (snd (insert_index sample_prm sample_env [1, 2, 2000] 7
     \<lparr>dupsAllowed = False\<rparr> (sample_world []))))) = [] \<and>
   \<not> list_ex (\<lambda>e. snd (fst e) = 1 \<and> snd e = 7)
     (entries (store (snd (snd (insert_index sample_prm sample_env [1, 2, 2000] 7
       \<lparr>dupsAllowed = False\<rparr> (sample_world []))))))"
proof -
  let ?w1 = "\<lparr>store = \<lparr>entries = [(([], 1), 7), (([], 2), 7)], builderDupsAllowed = False\<rparr>,
      multikey = False,
      calls = [CallInsert ([], 1) 7 False (Status OK []), CallInsert ([], 2) 7 False (Status OK [])]\<rparr>
      :: (sample_store, sample_key, int) world"
  let ?st = "Status KeyTooLong ''key too long''"
  let ?w2 = "?w1\<lparr>calls := calls ?w1 @ [CallInsert ([], 2000) 7 False ?st]\<rparr>"
  have keys: "getKeys sample_prm [1, 2, 2000] = [([], 1), ([], 2)] @ ([], 2000) # []"
    by (simp add: sample_defs)
  have earlier: "insert_loop sample_prm sample_env 7 (dupsAllowed \<lparr>dupsAllowed = False\<rparr>) []
      [([], 1), ([], 2)] 0 (sample_world []) = (None, 2, ?w1)"
    by (simp add: sample_defs)
  have failing: "store_insert sample_prm ([], 2000) 7 (dupsAllowed \<lparr>dupsAllowed = False\<rparr>) ?w1
      = (?st, ?w2)"
    by (simp add: sample_defs)
  have a: "\<not> isOK ?st" by (simp add: isOK_def)
  have b: "\<not> (code ?st = KeyTooLong \<and> ignoreKeyTooLong sample_env)" by (simp add: sample_defs)
  have c: "\<not> (code ?st = DuplicateKeyValue \<and> \<not> isReady sample_env)" by simp
  have gone: "\<forall>s j. \<not> list_ex (\<lambda>e. snd (fst e) = snd j \<and> snd e = 7)
      (entries (snd (sdi_unindex sample_prm s j 7 (dupsAllowed \<lparr>dupsAllowed = False\<rparr>))))"
    by (simp add: sample_prm_def sample_unindex_def list_ex_iff)
  have stays: "\<forall>s j j'. \<not> list_ex (\<lambda>e. snd (fst e) = snd j' \<and> snd e = 7) (entries s) \<longrightarrow>
      \<not> list_ex (\<lambda>e. snd (fst e) = snd j' \<and> snd e = 7)
      (entries (snd (sdi_unindex sample_prm s j 7 (dupsAllowed \<lparr>dupsAllowed = False\<rparr>))))"
    by (auto simp: sample_prm_def sample_unindex_def list_ex_iff)
  from insert_all_or_nothing
    [where holds = "\<lambda>s j. list_ex (\<lambda>e. snd (fst e) = snd j \<and> snd e = 7) (entries s)",
     OF keys earlier failing a b c gone stays]
  obtain w' outs where r:
      "insert_index sample_prm sample_env [1, 2, 2000] 7 \<lparr>dupsAllowed = False\<rparr> (sample_world [])
        = (?st, 0, w')"
      "store w' = foldl (\<lambda>s j. snd (sdi_unindex sample_prm s j 7 (dupsAllowed \<lparr>dupsAllowed = False\<rparr>)))
          (store ?w2) [([], 1), ([], 2)]"
      "\<forall>j \<in> set ([([], 1), ([], 2)] :: sample_key list).
         \<not> list_ex (\<lambda>e. snd (fst e) = snd j \<and> snd e = 7) (entries (store w'))"
    by (elim exE conjE)
  have e: "entries (store w') = []" unfolding r(2) by (simp add: sample_defs)
  have h: "\<not> list_ex (\<lambda>e. snd (fst e) = 1 \<and> snd e = 7) (entries (store w'))"
    using r(3) by simp
  from r(1) keys e h show ?thesis by simp
qed

text \<open>
  Against claim C1 as stated. First, on a store whose \<^verbatim>\<open>unindex\<close> throws its assertion
  and removes nothing: \<^verbatim>\<open>removeOneKey\<close> catches the assertion, so \<^verbatim>\<open>insert\<close> reports the
  failure with count 0 while the store still holds the two keys inserted earlier. Second,
  on the sample store, which honours \<^verbatim>\<open>unindex\<close>: the key 3 of the document is in the store
  for record 7 before the call, the insertion of key 2 fails on another record's entry,
  the clean-up goes over key 1 only, and the store still holds key 3 for record 7: one of
  the document's keys, not all and not none.
\<close>

theorem insert_rollback_incomplete:
  "insert_index faulty_prm sample_env [1, 2, 2000] 7 \<lparr>dupsAllowed = False\<rparr> (sample_world [])
     = (Status KeyTooLong ''key too long'', 0,
        \<lparr>store = \<lparr>entries = [(([], 1), 7), (([], 2), 7)], builderDupsAllowed = False\<rparr>,
         multikey = False,
         calls = [CallInsert ([], 1) 7 False (Status OK []),
                  CallInsert ([], 2) 7 False (Status OK []),
                  CallInsert ([], 2000) 7 False (Status KeyTooLong ''key too long''),
                  CallUnindex ([], 1) 7 False (Some ''unindex failed''),
                  CallUnindex ([], 2) 7 False (Some ''unindex failed'')]\<rparr>) \<and>
   insert_index sample_prm sample_env [1, 2, 3] 7 \<lparr>dupsAllowed = False\<rparr>
       (sample_world [(([], 2), 8), (([], 3), 7)])
     = (Status DuplicateKey ''duplicate key'', 0,
        \<lparr>store = \<lparr>entries = [(([], 2), 8), (([], 3), 7)], builderDupsAllowed = False\<rparr>,
         multikey = False,
         calls = [CallInsert ([], 1) 7 False (Status OK []),
                  CallInsert ([], 2) 7 False (Status DuplicateKey ''duplicate key''),
                  CallUnindex ([], 1) 7 False None]\<rparr>)"
  by (simp add: insert_index_def faulty_prm_def sample_defs)

section \<open>Update\<close>

lemma size_t_difference:
  assumes "a + b < 2 ^ 64" and "c + 2 \<le> a + b"
  shows "1 < (of_nat a + of_nat b - of_nat c :: 64 word)"
proof -
  have le: "c \<le> a + b" using assms(2) by simp
  have eq: "(of_nat a + of_nat b - of_nat c :: 64 word) = of_nat (a + b - c)"
    using le by (simp add: of_nat_diff)
  have "a + b - c < 2 ^ LENGTH(64)" using assms(1) by simp
  then have "unat (of_nat (a + b - c) :: 64 word) = a + b - c" by (rule of_nat_inverse [OF refl])
  then show ?thesis using assms(2) unfolding eq by (simp add: word_less_nat_alt)
qed

lemma store_unindex_multikey: "multikey (snd (store_unindex prm k l d w)) = multikey w"
  by (simp add: store_unindex_def split: prod.split)

lemma store_insert_multikey': "multikey (snd (store_insert prm k l d w)) = multikey w"
  by (simp add: store_insert_def split: prod.split)

lemma store_unindex_calls: "\<exists>c. is_unindex_of l d k c \<and> calls (snd (store_unindex prm k l d w)) = calls w @ [c]"
  by (simp add: store_unindex_def is_unindex_of_def split: prod.split)

lemma store_insert_calls:
  "calls (snd (store_insert prm k l d w)) = calls w @ [CallInsert k l d (fst (store_insert prm k l d w))]"
  by (simp add: store_insert_def split: prod.split)

lemma update_unindex_loop_multikey:
  "multikey (snd (update_unindex_loop prm l d ks w)) = multikey w"
proof (induction ks arbitrary: w)
  case Nil show ?case by simp
next
  case (Cons k ks)
  obtain x w1 where s: "store_unindex prm k l d w = (x, w1)" by (cases "store_unindex prm k l d w")
  have m: "multikey w1 = multikey w" using store_unindex_multikey [of prm k l d w] s by simp
  show ?case
  proof (cases x)
    case None
    then show ?thesis using s m Cons.IH [of w1] by simp
  next
    case (Some what)
    then show ?thesis using s m by simp
  qed
qed

lemma update_insert_loop_multikey:
  "multikey (snd (update_insert_loop prm l d ks w)) = multikey w"
proof (induction ks arbitrary: w)
  case Nil show ?case by simp
next
  case (Cons k ks)
  obtain st w1 where s: "store_insert prm k l d w = (st, w1)" by (cases "store_insert prm k l d w")
  have m: "multikey w1 = multikey w" using store_insert_multikey' [of prm k l d w] s by simp
  show ?case
  proof (cases "isOK st")
    case True
    then show ?thesis using s m Cons.IH [of w1] by simp
  next
    case False
    then show ?thesis using s m by simp
  qed
qed

lemma update_unindex_loop_extends:
  "\<exists>cs. calls (snd (update_unindex_loop prm l d ks w)) = calls w @ cs"
proof (induction ks arbitrary: w)
  case Nil show ?case by simp
next
  case (Cons k ks)
  obtain x w1 where s: "store_unindex prm k l d w = (x, w1)" by (cases "store_unindex prm k l d w")
  obtain c where c: "calls w1 = calls w @ [c]" using store_unindex_calls [of l d k prm w] s by auto
  show ?case
  proof (cases x)
    case None
    obtain cs where "calls (snd (update_unindex_loop prm l d ks w1)) = calls w1 @ cs"
      using Cons.IH [of w1] by (elim exE)
    then have "calls (snd (update_unindex_loop prm l d (k # ks) w)) = calls w @ (c # cs)"
      using s c None by simp
    then show ?thesis by (rule exI)
  next
    case (Some what)
    then have "calls (snd (update_unindex_loop prm l d (k # ks) w)) = calls w @ [c]"
      using s c by simp
    then show ?thesis by (rule exI)
  qed
qed

lemma update_insert_loop_extends:
  "\<exists>cs. calls (snd (update_insert_loop prm l d ks w)) = calls w @ cs"
proof (induction ks arbitrary: w)
  case Nil show ?case by simp
next
  case (Cons k ks)
  obtain st w1 where s: "store_insert prm k l d w = (st, w1)" by (cases "store_insert prm k l d w")
  have c: "calls w1 = calls w @ [CallInsert k l d st]" using store_insert_calls [of prm k l d w] s by simp
  show ?case
  proof (cases "isOK st")
    case True
    obtain cs where "calls (snd (update_insert_loop prm l d ks w1)) = calls w1 @ cs"
      using Cons.IH [of w1] by (elim exE)
    then have "calls (snd (update_insert_loop prm l d (k # ks) w)) = calls w @ (CallInsert k l d st # cs)"
      using s c True by simp
    then show ?thesis by (rule exI)
  next
    case False
    then have "calls (snd (update_insert_loop prm l d (k # ks) w)) = calls w @ [CallInsert k l d st]"
      using s c by simp
    then show ?thesis by (rule exI)
  qed
qed

lemma update_world:
  assumes "isValid t"
  shows "snd (snd (update prm t n w)) =
     (let w1 = (if update_makes_multikey t then setMultikey w else w);
          r = update_unindex_loop prm (ticket_loc t) (ticket_dupsAllowed t) (removed t) w1
      in case fst r of Some what \<Rightarrow> snd r
         | None \<Rightarrow> snd (update_insert_loop prm (ticket_loc t) (ticket_dupsAllowed t) (added t) (snd r)))"
  using assms by (simp add: update_def Let_def split: prod.split option.split)

lemma update_unindex_loop_calls:
  "update_unindex_loop prm l d ks w = (None, w1) \<Longrightarrow>
   \<exists>outs. list_all2 (is_unindex_of l d) ks outs \<and> calls w1 = calls w @ outs"
proof (induction ks arbitrary: w)
  case Nil
  then show ?case by simp
next
  case (Cons k ks)
  obtain x wa where s: "store_unindex prm k l d w = (x, wa)" by (cases "store_unindex prm k l d w")
  obtain c where c: "is_unindex_of l d k c" "calls wa = calls w @ [c]"
    using store_unindex_calls [of l d k prm w] s by auto
  have x: "x = None" using Cons.prems s by (cases x) simp_all
  then have "update_unindex_loop prm l d ks wa = (None, w1)" using Cons.prems s by simp
  then obtain outs where o: "list_all2 (is_unindex_of l d) ks outs" "calls w1 = calls wa @ outs"
    using Cons.IH by blast
  have "list_all2 (is_unindex_of l d) (k # ks) (c # outs)" using c(1) o(1) by simp
  moreover have "calls w1 = calls w @ (c # outs)" using c(2) o(2) by simp
  ultimately show ?case by (intro exI conjI)
qed

lemma update_insert_loop_calls:
  "update_insert_loop prm l d ks w = (None, w1) \<Longrightarrow>
   \<exists>ins. list_all2 (is_insert_of l d) ks ins \<and> calls w1 = calls w @ ins"
proof (induction ks arbitrary: w)
  case Nil
  then show ?case by simp
next
  case (Cons k ks)
  obtain st wa where s: "store_insert prm k l d w = (st, wa)" by (cases "store_insert prm k l d w")
  have c: "calls wa = calls w @ [CallInsert k l d st]"
    using store_insert_calls [of prm k l d w] s by simp
  have ok: "isOK st" using Cons.prems s by (cases "isOK st") simp_all
  then have "update_insert_loop prm l d ks wa = (None, w1)" using Cons.prems s by simp
  then obtain ins where o: "list_all2 (is_insert_of l d) ks ins" "calls w1 = calls wa @ ins"
    using Cons.IH by blast
  have "list_all2 (is_insert_of l d) (k # ks) (CallInsert k l d st # ins)"
    using o(1) by (simp add: is_insert_of_def)
  moreover have "calls w1 = calls w @ (CallInsert k l d st # ins)" using c o(2) by simp
  ultimately show ?case by (intro exI conjI)
qed

lemma update_insert_loop_append:
  "update_insert_loop prm l d pre w = (None, w1) \<Longrightarrow>
   update_insert_loop prm l d (pre @ rest) w = update_insert_loop prm l d rest w1"
proof (induction pre arbitrary: w)
  case Nil
  then show ?case by simp
next
  case (Cons k pre)
  obtain st wa where s: "store_insert prm k l d w = (st, wa)" by (cases "store_insert prm k l d w")
  have ok: "isOK st" using Cons.prems s by (cases "isOK st") simp_all
  then have "update_insert_loop prm l d pre wa = (None, w1)" using Cons.prems s by simp
  then have "update_insert_loop prm l d (pre @ rest) wa = update_insert_loop prm l d rest w1"
    by (rule Cons.IH)
  then show ?case using s ok by simp
qed

text \<open>
  Claim C3, as the code has it. \<^verbatim>\<open>update\<close> takes the ticket by constant reference and
  never writes its valid flag, so a ticket is not used up by being applied. What holds is
  the second half of the claim: on a ticket whose valid flag is false, \<^verbatim>\<open>update\<close>
  returns InternalError and leaves the store, the multikey flag, the call list and
  \<^verbatim>\<open>*numUpdated\<close> as they were.
\<close>

theorem update_rejects_invalid_ticket:
  assumes "\<not> isValid t"
  shows "update prm t n w
      = (Returned (Status InternalError ''Invalid UpdateTicket in update''), n, w)"
  using assms by (simp add: update_def)

text \<open>The theorem on the sample store, at a ticket that was never marked valid.\<close>

theorem update_rejects_invalid_ticket_witness:
  "\<not> isValid (\<lparr>isValid = False, oldKeys = \<lparr>key_comp_order = (), elems = [([], 1), ([], 2)]\<rparr>,
      newKeys = \<lparr>key_comp_order = (), elems = [([], 2)]\<rparr>,
      removed = [([], 1)], added = [], ticket_loc = 7, ticket_dupsAllowed = False\<rparr>
        :: (unit, sample_key, int) UpdateTicket) \<and>
   update sample_prm
     \<lparr>isValid = False, oldKeys = \<lparr>key_comp_order = (), elems = [([], 1), ([], 2)]\<rparr>,
      newKeys = \<lparr>key_comp_order = (), elems = [([], 2)]\<rparr>,
      removed = [([], 1)], added = [], ticket_loc = 7, ticket_dupsAllowed = False\<rparr>
     5 (sample_world [(([], 1), 7), (([], 2), 7)])
   = (Returned (Status InternalError ''Invalid UpdateTicket in update''), 5,
      sample_world [(([], 1), 7), (([], 2), 7)])"
proof -
  let ?t = "\<lparr>isValid = False, oldKeys = \<lparr>key_comp_order = (), elems = [([], 1), ([], 2)]\<rparr>,
      newKeys = \<lparr>key_comp_order = (), elems = [([], 2)]\<rparr>,
      removed = [([], 1)], added = [], ticket_loc = 7, ticket_dupsAllowed = False\<rparr>
      :: (unit, sample_key, int) UpdateTicket"
  have inv: "\<not> isValid ?t" by simp
  show ?thesis
    using update_rejects_invalid_ticket
      [OF inv, of sample_prm 5 "sample_world [(([], 1), 7), (([], 2), 7)]"]
    by simp
qed

text \<open>
  Against claim C3 as stated: the ticket that \<^verbatim>\<open>validateUpdate\<close> makes for the change from
  keys 1, 2 to key 2 is applied with success, and the same ticket, still valid, is then
  applied with success a second time, with a second \<^verbatim>\<open>unindex\<close> call on the store.
\<close>

theorem update_ticket_not_consumed:
  "validateUpdate sample_prm [1, 2] [2] 7 \<lparr>dupsAllowed = False\<rparr>
     = Inr (Status_OK,
        \<lparr>isValid = True, oldKeys = \<lparr>key_comp_order = (), elems = [([], 1), ([], 2)]\<rparr>,
         newKeys = \<lparr>key_comp_order = (), elems = [([], 2)]\<rparr>,
         removed = [([], 1)], added = [], ticket_loc = 7, ticket_dupsAllowed = False\<rparr>) \<and>
   update sample_prm
     \<lparr>isValid = True, oldKeys = \<lparr>key_comp_order = (), elems = [([], 1), ([], 2)]\<rparr>,
      newKeys = \<lparr>key_comp_order = (), elems = [([], 2)]\<rparr>,
      removed = [([], 1)], added = [], ticket_loc = 7, ticket_dupsAllowed = False\<rparr>
     5 (sample_world [(([], 1), 7), (([], 2), 7)])
   = (Returned Status_OK, 0,
      \<lparr>store = \<lparr>entries = [(([], 2), 7)], builderDupsAllowed = False\<rparr>, multikey = False,
       calls = [CallUnindex ([], 1) 7 False None]\<rparr>) \<and>
   update sample_prm
     \<lparr>isValid = True, oldKeys = \<lparr>key_comp_order = (), elems = [([], 1), ([], 2)]\<rparr>,
      newKeys = \<lparr>key_comp_order = (), elems = [([], 2)]\<rparr>,
      removed = [([], 1)], added = [], ticket_loc = 7, ticket_dupsAllowed = False\<rparr>
     5 \<lparr>store = \<lparr>entries = [(([], 2), 7)], builderDupsAllowed = False\<rparr>, multikey = False,
       calls = [CallUnindex ([], 1) 7 False None]\<rparr>
   = (Returned Status_OK, 0,
      \<lparr>store = \<lparr>entries = [(([], 2), 7)], builderDupsAllowed = False\<rparr>, multikey = False,
       calls = [CallUnindex ([], 1) 7 False None, CallUnindex ([], 1) 7 False None]\<rparr>)"
  by (simp add: validateUpdate_def getKeySet_def setDifference_def update_def
      update_makes_multikey_def woCompare_default_def sample_defs)

text \<open>
  Claim C4. For a valid ticket whose removals all went through, let the added keys be
  \<open>pre @ k # post\<close>. If the keys of \<open>pre\<close> were inserted and the store answers the
  insertion of \<open>k\<close> with a status that is not OK, then \<^verbatim>\<open>update\<close> returns that status,
  leaves \<^verbatim>\<open>*numUpdated\<close> as it was, and leaves the world as it is right after the failing
  insertion: the calls of the whole update are the unindex calls for the removed keys, the
  insertions of \<open>pre\<close> and the failing insertion, and nothing after it puts a removed key
  back.
\<close>

theorem update_no_rollback:
  assumes valid: "isValid t"
    and unindexed: "update_unindex_loop prm (ticket_loc t) (ticket_dupsAllowed t) (removed t)
        (if update_makes_multikey t then setMultikey w else w) = (None, w1)"
    and delta: "added t = pre @ k # post"
    and earlier: "update_insert_loop prm (ticket_loc t) (ticket_dupsAllowed t) pre w1 = (None, w2)"
    and failing: "store_insert prm k (ticket_loc t) (ticket_dupsAllowed t) w2 = (st, w3)"
    and not_ok: "\<not> isOK st"
  shows "update prm t n w = (Returned st, n, w3) \<and>
     store w3 = snd (sdi_insert prm (store w2) k (ticket_loc t) (ticket_dupsAllowed t)) \<and>
     (\<exists>outs ins.
        list_all2 (is_unindex_of (ticket_loc t) (ticket_dupsAllowed t)) (removed t) outs \<and>
        list_all2 (is_insert_of (ticket_loc t) (ticket_dupsAllowed t)) pre ins \<and>
        calls w3 = calls (if update_makes_multikey t then setMultikey w else w) @ outs @ ins
           @ [CallInsert k (ticket_loc t) (ticket_dupsAllowed t) st])"
proof -
  let ?l = "ticket_loc t" and ?d = "ticket_dupsAllowed t"
  let ?w0 = "if update_makes_multikey t then setMultikey w else w"
  have "update_insert_loop prm ?l ?d (k # post) w2 = (Some st, w3)"
    using failing not_ok by simp
  then have loop: "update_insert_loop prm ?l ?d (added t) w1 = (Some st, w3)"
    using update_insert_loop_append [OF earlier, of "k # post"] delta by simp
  have res: "update prm t n w = (Returned st, n, w3)"
    using valid unindexed loop by (simp add: update_def)
  have st: "store w3 = snd (sdi_insert prm (store w2) k ?l ?d)"
    using failing by (auto simp: store_insert_def split: prod.splits)
  obtain outs where o: "list_all2 (is_unindex_of ?l ?d) (removed t) outs" "calls w1 = calls ?w0 @ outs"
    using update_unindex_loop_calls [OF unindexed] by (elim exE conjE)
  obtain ins where i: "list_all2 (is_insert_of ?l ?d) pre ins" "calls w2 = calls w1 @ ins"
    using update_insert_loop_calls [OF earlier] by (elim exE conjE)
  have "calls w3 = calls w2 @ [CallInsert k ?l ?d st]"
    using store_insert_calls [of prm k ?l ?d w2] failing by simp
  then have c: "calls w3 = calls ?w0 @ outs @ ins @ [CallInsert k ?l ?d st]"
    using o(2) i(2) by simp
  from res st o(1) i(1) c show ?thesis by (intro conjI exI)
qed

text \<open>
  The theorem on the sample store: the document moves from key 1 to a key that is too
  long; the update fails and the store holds neither key.
\<close>

theorem update_no_rollback_witness:
  "update sample_prm
     \<lparr>isValid = True, oldKeys = \<lparr>key_comp_order = (), elems = [([], 1)]\<rparr>,
      newKeys = \<lparr>key_comp_order = (), elems = [([], 2000)]\<rparr>,
      removed = [([], 1)], added = [([], 2000)], ticket_loc = 7, ticket_dupsAllowed = False\<rparr>
     0 (sample_world [(([], 1), 7)])
   = (Returned (Status KeyTooLong ''key too long''), 0,
      \<lparr>store = \<lparr>entries = [], builderDupsAllowed = False\<rparr>, multikey = False,
       calls = [CallUnindex ([], 1) 7 False None,
                CallInsert ([], 2000) 7 False (Status KeyTooLong ''key too long'')]\<rparr>)"
proof -
  let ?t = "\<lparr>isValid = True, oldKeys = \<lparr>key_comp_order = (), elems = [([], 1)]\<rparr>,
      newKeys = \<lparr>key_comp_order = (), elems = [([], 2000)]\<rparr>,
      removed = [([], 1)], added = [([], 2000)], ticket_loc = 7, ticket_dupsAllowed = False\<rparr>
      :: (unit, sample_key, int) UpdateTicket"
  let ?w = "sample_world [(([], 1), 7)]"
  let ?w1 = "\<lparr>store = \<lparr>entries = [], builderDupsAllowed = False\<rparr>, multikey = False,
       calls = [CallUnindex ([], 1) 7 False None]\<rparr> :: (sample_store, sample_key, int) world"
  let ?st = "Status KeyTooLong ''key too long''"
  let ?w3 = "?w1\<lparr>calls := calls ?w1 @ [CallInsert ([], 2000) 7 False ?st]\<rparr>"
  have valid: "isValid ?t" by simp
  have nm: "\<not> update_makes_multikey ?t" by (simp add: update_makes_multikey_def)
  have unindexed: "update_unindex_loop sample_prm (ticket_loc ?t) (ticket_dupsAllowed ?t) (removed ?t)
      (if update_makes_multikey ?t then setMultikey ?w else ?w) = (None, ?w1)"
    using nm by (simp add: sample_defs)
  have delta: "added ?t = [] @ ([], 2000) # []" by simp
  have earlier: "update_insert_loop sample_prm (ticket_loc ?t) (ticket_dupsAllowed ?t) [] ?w1 = (None, ?w1)"
    by simp
  have failing: "store_insert sample_prm ([], 2000) (ticket_loc ?t) (ticket_dupsAllowed ?t) ?w1 = (?st, ?w3)"
    by (simp add: sample_defs)
  have not_ok: "\<not> isOK ?st" by (simp add: isOK_def)
  have "update sample_prm ?t 0 ?w = (Returned ?st, 0, ?w3)"
    by (rule update_no_rollback [OF valid unindexed delta earlier failing not_ok, THEN conjunct1])
  then show ?thesis by simp
qed

text \<open>
  Claim C5. For a valid ticket whose sizes fit \<^verbatim>\<open>size_t\<close>, if the number of old keys
  plus the number of added keys minus the number of removed keys is above 1, then
  whatever the outcome of \<^verbatim>\<open>update\<close> (success, a failed insertion, an exception of
  \<^verbatim>\<open>unindex\<close>), the first call it makes is \<^verbatim>\<open>setMultikey\<close>, before every call on the
  store, and the flag is set in the world it leaves.
\<close>

theorem update_sets_multikey_first:
  assumes valid: "isValid t"
    and fits: "length (elems (oldKeys t)) + length (added t) < 2 ^ 64"
    and more: "1 < int (length (elems (oldKeys t))) + int (length (added t)) - int (length (removed t))"
  shows "multikey (snd (snd (update prm t n w))) \<and>
     (\<exists>rest. calls (snd (snd (update prm t n w))) = calls w @ CallSetMultikey # rest)"
proof -
  let ?l = "ticket_loc t" and ?d = "ticket_dupsAllowed t"
  let ?w1 = "setMultikey w"
  let ?r = "update_unindex_loop prm ?l ?d (removed t) ?w1"
  let ?w3 = "snd (update_insert_loop prm ?l ?d (added t) (snd ?r))"
  have mm: "update_makes_multikey t"
    unfolding update_makes_multikey_def using fits more by (intro size_t_difference) simp_all
  have m1: "multikey ?w1" and c1: "calls ?w1 = calls w @ [CallSetMultikey]"
    by (simp_all add: setMultikey_def)
  have m2: "multikey (snd ?r)" using m1 by (simp add: update_unindex_loop_multikey)
  obtain cs where c2: "calls (snd ?r) = calls ?w1 @ cs"
    using update_unindex_loop_extends [of prm ?l ?d "removed t" ?w1] by (elim exE)
  have m3: "multikey ?w3" using m2 by (simp add: update_insert_loop_multikey)
  obtain cs' where c3: "calls ?w3 = calls (snd ?r) @ cs'"
    using update_insert_loop_extends [of prm ?l ?d "added t" "snd ?r"] by (elim exE)
  show ?thesis
  proof (cases "fst ?r")
    case None
    then have w: "snd (snd (update prm t n w)) = ?w3"
      using mm by (simp add: update_world [OF valid])
    have "calls ?w3 = calls w @ CallSetMultikey # (cs @ cs')" using c1 c2 c3 by simp
    then show ?thesis using m3 w by auto
  next
    case (Some what)
    then have w: "snd (snd (update prm t n w)) = snd ?r"
      using mm by (simp add: update_world [OF valid])
    have "calls (snd ?r) = calls w @ CallSetMultikey # cs" using c1 c2 by simp
    then show ?thesis using m2 w by auto
  qed
qed

text \<open>
  The theorem on the sample store, at an update that fails at its second insertion: the
  flag is set all the same, and \<^verbatim>\<open>setMultikey\<close> is the first call.
\<close>

theorem update_sets_multikey_first_witness:
  "multikey (snd (snd (update sample_prm
     \<lparr>isValid = True, oldKeys = \<lparr>key_comp_order = (), elems = [([], 1)]\<rparr>,
      newKeys = \<lparr>key_comp_order = (), elems = [([], 1), ([], 2), ([], 2000)]\<rparr>,
      removed = [], added = [([], 2), ([], 2000)], ticket_loc = 7, ticket_dupsAllowed = False\<rparr>
     0 (sample_world [(([], 1), 7)])))) \<and>
   update sample_prm
     \<lparr>isValid = True, oldKeys = \<lparr>key_comp_order = (), elems = [([], 1)]\<rparr>,
      newKeys = \<lparr>key_comp_order = (), elems = [([], 1), ([], 2), ([], 2000)]\<rparr>,
      removed = [], added = [([], 2), ([], 2000)], ticket_loc = 7, ticket_dupsAllowed = False\<rparr>
     0 (sample_world [(([], 1), 7)])
   = (Returned (Status KeyTooLong ''key too long''), 0,
      \<lparr>store = \<lparr>entries = [(([], 1), 7), (([], 2), 7)], builderDupsAllowed = False\<rparr>,
       multikey = True,
       calls = [CallSetMultikey, CallInsert ([], 2) 7 False (Status OK []),
                CallInsert ([], 2000) 7 False (Status KeyTooLong ''key too long'')]\<rparr>)"
proof -
  let ?t = "\<lparr>isValid = True, oldKeys = \<lparr>key_comp_order = (), elems = [([], 1)]\<rparr>,
      newKeys = \<lparr>key_comp_order = (), elems = [([], 1), ([], 2), ([], 2000)]\<rparr>,
      removed = [], added = [([], 2), ([], 2000)], ticket_loc = 7, ticket_dupsAllowed = False\<rparr>
      :: (unit, sample_key, int) UpdateTicket"
  have valid: "isValid ?t" by simp
  have fits: "length (elems (oldKeys ?t)) + length (added ?t) < 2 ^ 64" by simp
  have more: "1 < int (length (elems (oldKeys ?t))) + int (length (added ?t)) - int (length (removed ?t))"
    by simp
  have mm: "update_makes_multikey ?t" by (simp add: update_makes_multikey_def)
  have "multikey (snd (snd (update sample_prm ?t 0 (sample_world [(([], 1), 7)]))))"
    by (rule update_sets_multikey_first [OF valid fits more, THEN conjunct1])
  moreover have "update sample_prm ?t 0 (sample_world [(([], 1), 7)])
   = (Returned (Status KeyTooLong ''key too long''), 0,
      \<lparr>store = \<lparr>entries = [(([], 1), 7), (([], 2), 7)], builderDupsAllowed = False\<rparr>,
       multikey = True,
       calls = [CallSetMultikey, CallInsert ([], 2) 7 False (Status OK []),
                CallInsert ([], 2000) 7 False (Status KeyTooLong ''key too long'')]\<rparr>)"
    using mm by (simp add: update_def sample_defs)
  ultimately show ?thesis by (intro conjI)
qed

section \<open>Point lookup\<close>

text \<open>
  Claim C6. \<^verbatim>\<open>findSingle\<close> returns something else than the null record id only when the
  forward cursor, positioned by \<^verbatim>\<open>locate(key, RecordId::min())\<close>, is on an entry whose key
  compares equal to the key asked for with field names left out of the comparison, and
  then it returns the record id of that entry. It returns the null record id when the
  cursor is at its end (as on an empty store) and when the entry it is on does not compare
  equal.
\<close>

theorem findSingle_exact:
  "(findSingle prm w key \<noteq> nullRecordId prm \<longrightarrow>
      (\<exists>k. sdi_locate prm (store w) 1 key (minRecordId prm) = Some (k, findSingle prm w key) \<and>
           woCompare prm key k (emptyObj prm) False = 0)) \<and>
   (sdi_locate prm (store w) 1 key (minRecordId prm) = None \<longrightarrow>
      findSingle prm w key = nullRecordId prm) \<and>
   (\<forall>k r. sdi_locate prm (store w) 1 key (minRecordId prm) = Some (k, r) \<and>
          woCompare prm key k (emptyObj prm) False \<noteq> 0 \<longrightarrow>
      findSingle prm w key = nullRecordId prm) \<and>
   (\<forall>k r. sdi_locate prm (store w) 1 key (minRecordId prm) = Some (k, r) \<and>
          woCompare prm key k (emptyObj prm) False = 0 \<longrightarrow>
      findSingle prm w key = r)"
  by (auto simp: findSingle_def split: option.splits)

text \<open>
  On the sample store, whose cursor goes to the first entry at or after the key, a record
  id that \<^verbatim>\<open>findSingle\<close> returns belongs to an entry of the store with the value asked for.
\<close>

lemma findSingle_sample_store:
  assumes "findSingle sample_prm w key = r" and "r \<noteq> 0"
  shows "\<exists>k. (k, r) \<in> set (entries (store w)) \<and> snd k = snd key"
proof (cases "sample_locate (store w) 1 key (minRecordId sample_prm)")
  case None
  then have "findSingle sample_prm w key = 0" by (simp add: findSingle_def sample_prm_def)
  then show ?thesis using assms by simp
next
  case (Some e)
  obtain k r' where e: "e = (k, r')" by (cases e)
  have eq: "sample_woCompare key k () False = 0 \<and> r' = r"
    using assms Some e by (auto simp: findSingle_def sample_prm_def split: if_splits)
  have "find (\<lambda>e. snd key < snd (fst e) \<or>
        (snd key = snd (fst e) \<and> minRecordId sample_prm \<le> snd e)) (entries (store w)) = Some (k, r)"
    using Some e eq by (simp add: sample_locate_def)
  then have "(k, r) \<in> set (entries (store w))"
    by (auto simp: find_Some_iff in_set_conv_nth)
  moreover have "snd k = snd key"
    using eq by (simp add: sample_woCompare_def sample_cmp_def split: if_splits)
  ultimately show ?thesis by blast
qed

text \<open>
  The theorem on the sample store: the key with value 3 is found under another field
  name; for the value 2 the cursor is on the entry with value 3 and nothing is found; for
  the value 5 the cursor is at its end; the empty store finds nothing.
\<close>

theorem findSingle_exact_witness:
  "findSingle sample_prm (sample_world [(([], 1), 7), (([], 3), 8)]) (''a'', 3) = 8 \<and>
   sdi_locate sample_prm (store (sample_world [(([], 1), 7), (([], 3), 8)])) 1 (''a'', 2)
      (minRecordId sample_prm) = Some (([], 3), 8) \<and>
   findSingle sample_prm (sample_world [(([], 1), 7), (([], 3), 8)]) (''a'', 2) = 0 \<and>
   findSingle sample_prm (sample_world [(([], 1), 7), (([], 3), 8)]) (''a'', 5) = 0 \<and>
   findSingle sample_prm (sample_world []) (''a'', 3) = 0"
proof -
  let ?w = "sample_world [(([], 1), 7), (([], 3), 8)]"
  have l3: "sdi_locate sample_prm (store ?w) 1 (''a'', 3) (minRecordId sample_prm) = Some (([], 3), 8)"
    by (simp add: sample_prm_def sample_world_def sample_locate_def)
  have c3: "woCompare sample_prm (''a'', 3) ([], 3) (emptyObj sample_prm) False = 0"
    by (simp add: sample_prm_def sample_woCompare_def sample_cmp_def)
  have l2: "sdi_locate sample_prm (store ?w) 1 (''a'', 2) (minRecordId sample_prm) = Some (([], 3), 8)"
    by (simp add: sample_prm_def sample_world_def sample_locate_def)
  have c2: "woCompare sample_prm (''a'', 2) ([], 3) (emptyObj sample_prm) False \<noteq> 0"
    by (simp add: sample_prm_def sample_woCompare_def sample_cmp_def)
  have l5: "sdi_locate sample_prm (store ?w) 1 (''a'', 5) (minRecordId sample_prm) = None"
    by (simp add: sample_prm_def sample_world_def sample_locate_def)
  have l0: "sdi_locate sample_prm (store (sample_world [])) 1 (''a'', 3) (minRecordId sample_prm) = None"
    by (simp add: sample_prm_def sample_world_def sample_locate_def)
  have n: "nullRecordId sample_prm = 0" by (simp add: sample_prm_def)
  have "findSingle sample_prm ?w (''a'', 3) = 8"
    using findSingle_exact [of sample_prm ?w "(''a'', 3)"] l3 c3 by blast
  moreover have "findSingle sample_prm ?w (''a'', 2) = 0"
    using findSingle_exact [of sample_prm ?w "(''a'', 2)"] l2 c2 n by metis
  moreover have "findSingle sample_prm ?w (''a'', 5) = 0"
    using findSingle_exact [of sample_prm ?w "(''a'', 5)"] l5 n by metis
  moreover have "findSingle sample_prm (sample_world []) (''a'', 3) = 0"
    using findSingle_exact [of sample_prm "sample_world []" "(''a'', 3)"] l0 n by metis
  ultimately show ?thesis using l2 by (intro conjI)
qed

section \<open>Accumulating a bulk build\<close>

lemma bulk_add_loop_eq:
  "bulk_add_loop l ks b =
     b\<lparr>sorter := sorter b @ map (\<lambda>k. (k, l)) ks,
       keysInserted := keysInserted b + of_nat (length ks)\<rparr>"
  by (induction ks arbitrary: b) simp_all

text \<open>
  Claim C10. \<^verbatim>\<open>BulkBuilder::insert\<close> returns OK for every document and leaves the world
  (store, multikey flag and call list) as it is. It appends one pair of key and record id
  to the sorter for each key of the document, in order, adds the number of keys to
  \<^verbatim>\<open>_keysInserted\<close> and, when the pointer is not null, to \<^verbatim>\<open>*numInserted\<close>, and sets
  \<^verbatim>\<open>_isMultiKey\<close> when the document has more than one key, leaving it as it was
  otherwise. Neither the options nor any tolerance policy enters the result.
\<close>

theorem BulkBuilder_insert_accumulates:
  "BulkBuilder_insert prm bulk obj l options numInserted w =
     (Status_OK,
      bulk\<lparr>sorter := sorter bulk @ map (\<lambda>k. (k, l)) (getKeys prm obj),
           isMultiKey := (isMultiKey bulk \<or> 1 < length (getKeys prm obj)),
           keysInserted := keysInserted bulk + of_nat (length (getKeys prm obj))\<rparr>,
      map_option (\<lambda>n. n + of_nat (length (getKeys prm obj))) numInserted,
      w)"
  by (simp add: BulkBuilder_insert_def Let_def bulk_add_loop_eq)

text \<open>
  The theorem on the sample instance: a document with three keys, one of them too long
  for the store, goes to the sorter whole.
\<close>

theorem BulkBuilder_insert_accumulates_witness:
  "BulkBuilder_insert sample_prm \<lparr>sorter = [(([], 9), 3)], isMultiKey = False, keysInserted = 1\<rparr>
      [5, 2000, 4] 7 \<lparr>dupsAllowed = False\<rparr> (Some 10) (sample_world [(([], 4), 6)])
   = (Status_OK,
      \<lparr>sorter = [(([], 9), 3), (([], 4), 7), (([], 5), 7), (([], 2000), 7)], isMultiKey = True,
       keysInserted = 4\<rparr>,
      Some 13, sample_world [(([], 4), 6)])"
  using BulkBuilder_insert_accumulates [of sample_prm
      "\<lparr>sorter = [(([], 9), 3)], isMultiKey = False, keysInserted = 1\<rparr>"
      "[5, 2000, 4]" 7 "\<lparr>dupsAllowed = False\<rparr>" "Some 10" "sample_world [(([], 4), 6)]"]
  by (simp add: sample_prm_def sample_getKeys_def)

section \<open>The policy for keys that are too long\<close>

lemma bulk_loop_tooLong:
  assumes "builder_addKey prm k r w = (st, w1)" and "code st = KeyTooLong"
    and "\<not> (mi \<and> interruptPending e i)"
  shows "bulk_loop prm e mi dups ((k, r) # ds) i sink w =
     (if ignoreKeyTooLong e then bulk_loop prm e mi dups ds (Suc i) sink w1
      else (Some (Returned st), sink, w1))"
  by (simp add: assms isOK_def)

lemma bulk_loop_ok:
  assumes "builder_addKey prm k r w = (st, w1)" and "isOK st"
    and "\<not> (mi \<and> interruptPending e i)"
  shows "bulk_loop prm e mi dups ((k, r) # ds) i sink w = bulk_loop prm e mi dups ds (Suc i) sink w1"
  by (simp add: assms)

lemma bulk_loop_duplicate:
  assumes "builder_addKey prm k r w = (st, w1)" and "code st = DuplicateKey"
    and "\<not> (mi \<and> interruptPending e i)"
  shows "bulk_loop prm e mi False ((k, r) # ds) i sink w =
     (case sink of
        Some D \<Rightarrow> bulk_loop prm e mi False ds (Suc i) (Some (insert r D)) w1
      | None \<Rightarrow> (Some (Returned st), None, w1))"
  by (simp add: assms isOK_def split: option.split)

lemma bulk_loop_other:
  assumes "builder_addKey prm k r w = (st, w1)" and "\<not> isOK st"
    and "\<not> (code st = KeyTooLong \<and> ignoreKeyTooLong e)" and "code st \<noteq> DuplicateKey"
    and "\<not> (mi \<and> interruptPending e i)"
  shows "bulk_loop prm e mi dups ((k, r) # ds) i sink w = (Some (Returned st), sink, w1)"
  by (simp add: assms)




section \<open>Duplicates in a bulk build\<close>

lemma bulk_loop_cases:
  obtains (interrupted) "mi \<and> interruptPending e i"
      "\<And>ds. bulk_loop prm e mi dups ((k, r) # ds) i sink w = (Some (Threw Interrupted), sink, w)"
  | (ok) st w1 where "builder_addKey prm k r w = (st, w1)" "isOK st"
      "\<And>ds. bulk_loop prm e mi dups ((k, r) # ds) i sink w = bulk_loop prm e mi dups ds (Suc i) sink w1"
  | (skipped) st w1 where "builder_addKey prm k r w = (st, w1)" "code st = KeyTooLong"
      "\<And>ds. bulk_loop prm e mi dups ((k, r) # ds) i sink w = bulk_loop prm e mi dups ds (Suc i) sink w1"
  | (dropped) st w1 D where "builder_addKey prm k r w = (st, w1)" "code st = DuplicateKey"
      "\<not> dups" "sink = Some D"
      "\<And>ds. bulk_loop prm e mi dups ((k, r) # ds) i sink w
         = bulk_loop prm e mi dups ds (Suc i) (Some (insert r D)) w1"
  | (invariant) st w1 where "builder_addKey prm k r w = (st, w1)" "code st = DuplicateKey" "dups"
      "\<And>ds. bulk_loop prm e mi dups ((k, r) # ds) i sink w = (Some InvariantFailure, sink, w1)"
  | (failed) st w1 where "builder_addKey prm k r w = (st, w1)" "\<not> isOK st"
      "code st = DuplicateKey \<longrightarrow> sink = None"
      "\<And>ds. bulk_loop prm e mi dups ((k, r) # ds) i sink w = (Some (Returned st), sink, w1)"
proof (cases "mi \<and> interruptPending e i")
  case True
  then show ?thesis using interrupted by simp
next
  case awake: False
  obtain st w1 where s: "builder_addKey prm k r w = (st, w1)" by (cases "builder_addKey prm k r w")
  show ?thesis
  proof (cases "isOK st")
    case True
    then show ?thesis using ok [OF s True] bulk_loop_ok [OF s True awake] by simp
  next
    case nok: False
    show ?thesis
    proof (cases "code st = KeyTooLong \<and> ignoreKeyTooLong e")
      case True
      then show ?thesis using skipped [OF s] bulk_loop_tooLong [OF s _ awake] by simp
    next
      case ntl: False
      show ?thesis
      proof (cases "code st = DuplicateKey")
        case dup: True
        show ?thesis
        proof (cases dups)
          case True
          have "\<And>ds. bulk_loop prm e mi dups ((k, r) # ds) i sink w = (Some InvariantFailure, sink, w1)"
            using awake nok ntl dup True by (simp add: s)
          then show ?thesis using invariant [OF s dup True] by simp
        next
          case nd: False
          show ?thesis
          proof (cases sink)
            case None
            have "\<And>ds. bulk_loop prm e mi dups ((k, r) # ds) i sink w = (Some (Returned st), sink, w1)"
              using bulk_loop_duplicate [OF s dup awake] nd None by simp
            then show ?thesis using failed [OF s nok] None by simp
          next
            case (Some D)
            have "\<And>ds. bulk_loop prm e mi dups ((k, r) # ds) i sink w
                = bulk_loop prm e mi dups ds (Suc i) (Some (insert r D)) w1"
              using bulk_loop_duplicate [OF s dup awake] nd Some by simp
            then show ?thesis using dropped [OF s dup nd Some] by simp
          qed
        qed
      next
        case False
        have "\<And>ds. bulk_loop prm e mi dups ((k, r) # ds) i sink w = (Some (Returned st), sink, w1)"
          using bulk_loop_other [OF s nok ntl False awake] .
        then show ?thesis using failed [OF s nok] False by simp
      qed
    qed
  qed
qed

lemma bulk_loop_append:
  "bulk_loop prm e mi dups pre i sink w = (None, sink1, w1) \<Longrightarrow>
   bulk_loop prm e mi dups (pre @ rest) i sink w
     = bulk_loop prm e mi dups rest (i + length pre) sink1 w1"
proof (induction pre arbitrary: i sink w)
  case Nil
  then show ?case by simp
next
  case (Cons x pre)
  obtain k r where x: "x = (k, r)" by (cases x)
  have app: "(x # pre) @ rest = (k, r) # (pre @ rest)" and cons: "x # pre = (k, r) # pre"
    using x by simp_all
  have ih: "\<And>sink' wa. bulk_loop prm e mi dups pre (Suc i) sink' wa = (None, sink1, w1) \<Longrightarrow>
      bulk_loop prm e mi dups (pre @ rest) (Suc i) sink' wa
        = bulk_loop prm e mi dups rest (i + length (x # pre)) sink1 w1"
    using Cons.IH [of "Suc i"] by simp
  show ?case
  proof (cases rule: bulk_loop_cases [of mi e i prm dups k r sink w])
    case interrupted
    then show ?thesis using Cons.prems unfolding cons by simp
  next
    case (ok st wa)
    have "bulk_loop prm e mi dups pre (Suc i) sink wa = (None, sink1, w1)"
      using Cons.prems unfolding cons ok(3) .
    then show ?thesis unfolding app ok(3) by (rule ih)
  next
    case (skipped st wa)
    have "bulk_loop prm e mi dups pre (Suc i) sink wa = (None, sink1, w1)"
      using Cons.prems unfolding cons skipped(3) .
    then show ?thesis unfolding app skipped(3) by (rule ih)
  next
    case (dropped st wa D)
    have "bulk_loop prm e mi dups pre (Suc i) (Some (insert r D)) wa = (None, sink1, w1)"
      using Cons.prems unfolding cons dropped(5) .
    then show ?thesis unfolding app dropped(5) by (rule ih)
  next
    case (invariant st wa)
    then show ?thesis using Cons.prems unfolding cons by simp
  next
    case (failed st wa)
    then show ?thesis using Cons.prems unfolding cons by simp
  qed
qed

lemma bulk_loop_no_sink:
  "bulk_loop prm e mi dups ds i None w = (out, sink', w') \<Longrightarrow> sink' = None"
proof (induction ds arbitrary: i w)
  case Nil
  then show ?case by simp
next
  case (Cons x ds)
  obtain k r where x: "x = (k, r)" by (cases x)
  show ?case
  proof (cases rule: bulk_loop_cases [of mi e i prm dups k r None w])
    case interrupted
    then show ?thesis using Cons.prems unfolding x by simp
  next
    case (ok st wa)
    show ?thesis using Cons.prems unfolding x ok(3) by (rule Cons.IH)
  next
    case (skipped st wa)
    show ?thesis using Cons.prems unfolding x skipped(3) by (rule Cons.IH)
  next
    case (dropped st wa D)
    then show ?thesis by simp
  next
    case (invariant st wa)
    then show ?thesis using Cons.prems unfolding x by simp
  next
    case (failed st wa)
    then show ?thesis using Cons.prems unfolding x by simp
  qed
qed

lemma bulk_loop_sink_grows:
  "bulk_loop prm e mi dups ds i (Some D) w = (out, sink', w') \<Longrightarrow>
   \<exists>D'. sink' = Some D' \<and> D \<subseteq> D' \<and> (\<forall>s. out = Some (Returned s) \<longrightarrow> code s \<noteq> DuplicateKey)"
proof (induction ds arbitrary: i w D)
  case Nil
  then show ?case by auto
next
  case (Cons x ds)
  obtain k r where x: "x = (k, r)" by (cases x)
  show ?case
  proof (cases rule: bulk_loop_cases [of mi e i prm dups k r "Some D" w])
    case interrupted
    then show ?thesis using Cons.prems unfolding x by auto
  next
    case (ok st wa)
    show ?thesis using Cons.prems unfolding x ok(3) by (rule Cons.IH)
  next
    case (skipped st wa)
    show ?thesis using Cons.prems unfolding x skipped(3) by (rule Cons.IH)
  next
    case (dropped st wa D0)
    have "bulk_loop prm e mi dups ds (Suc i) (Some (insert r D)) wa = (out, sink', w')"
      using Cons.prems dropped(4) unfolding x dropped(5) by simp
    then have "\<exists>D'. sink' = Some D' \<and> insert r D \<subseteq> D' \<and>
        (\<forall>s. out = Some (Returned s) \<longrightarrow> code s \<noteq> DuplicateKey)"
      by (rule Cons.IH)
    then show ?thesis by auto
  next
    case (invariant st wa)
    then show ?thesis using Cons.prems unfolding x by auto
  next
    case (failed st wa)
    then show ?thesis using Cons.prems unfolding x by auto
  qed
qed

lemma write_conflict_retry_returns:
  "\<not> conflict (m + n) \<Longrightarrow> \<exists>a. write_conflict_retry conflict m = Some a"
proof (induction n arbitrary: m)
  case 0
  then show ?case by (simp add: write_conflict_retry.simps)
next
  case (Suc n)
  show ?case
  proof (cases "conflict m")
    case True
    have "\<not> conflict (Suc m + n)" using Suc.prems by simp
    then obtain a where "write_conflict_retry conflict (Suc m) = Some a" using Suc.IH by blast
    then have "write_conflict_retry conflict m = Some a"
      using True by (subst write_conflict_retry.simps) simp
    then show ?thesis by (rule exI)
  next
    case False
    then show ?thesis by (simp add: write_conflict_retry.simps)
  qed
qed

text \<open>
  Claim C8. In a build with duplicates disallowed whose first unit of work commits, let
  the sorted stream be \<open>pre @ (k, r) # post\<close>, let the records of \<open>pre\<close> have gone through
  the loop, and let the builder answer \<^verbatim>\<open>addKey(k, r)\<close> with DuplicateKey. Without a set
  for the duplicates, \<^verbatim>\<open>commitBulk\<close> returns that status and stops there. With a set, \<open>r\<close>
  is put into it, the loop goes on with the records of \<open>post\<close>, the set that
  \<^verbatim>\<open>commitBulk\<close> leaves holds \<open>r\<close> and all it held before, and whatever status
  \<^verbatim>\<open>commitBulk\<close> returns is not a DuplicateKey.
\<close>

theorem commitBulk_duplicates:
  assumes retry: "write_conflict_retry (writeConflict e) 0 = Some a"
    and stream: "sorter_done prm (sorter bulk) = pre @ (k, r) # post"
    and earlier: "bulk_loop prm e mi False pre 0 sink
        (getBulkBuilder prm False (if isMultiKey bulk then setMultikey w else w)) = (None, sink1, w1)"
    and awake: "\<not> (mi \<and> interruptPending e (length pre))"
    and answer: "builder_addKey prm k r w1 = (st, w2)"
    and dup: "code st = DuplicateKey"
  shows "(sink = None \<longrightarrow>
            commitBulk prm e bulk mi False sink w = Some (Returned st, None, w2)) \<and>
         (\<forall>D. sink = Some D \<longrightarrow>
            (\<exists>D1 out D' w'.
               sink1 = Some D1 \<and> D \<subseteq> D1 \<and>
               bulk_loop prm e mi False (pre @ (k, r) # post) 0 sink
                   (getBulkBuilder prm False (if isMultiKey bulk then setMultikey w else w))
                 = bulk_loop prm e mi False post (Suc (length pre)) (Some (insert r D1)) w2 \<and>
               commitBulk prm e bulk mi False sink w = Some (out, Some D', w') \<and>
               insert r D1 \<subseteq> D' \<and>
               (\<forall>s. out = Returned s \<longrightarrow> code s \<noteq> DuplicateKey)))"
proof (intro conjI allI impI)
  let ?w0 = "getBulkBuilder prm False (if isMultiKey bulk then setMultikey w else w)"
  have split: "bulk_loop prm e mi False (pre @ (k, r) # post) 0 sink ?w0
      = bulk_loop prm e mi False ((k, r) # post) (length pre) sink1 w1"
    using bulk_loop_append [OF earlier, of "(k, r) # post"] by simp
  note step = bulk_loop_duplicate [OF answer dup awake, where ds = post and sink = sink1]
  {
    assume none: "sink = None"
    then have "sink1 = None" using earlier bulk_loop_no_sink by fast
    then have "bulk_loop prm e mi False (pre @ (k, r) # post) 0 sink ?w0
        = (Some (Returned st), None, w2)"
      using split step by simp
    then show "commitBulk prm e bulk mi False sink w = Some (Returned st, None, w2)"
      using retry stream none by (simp add: commitBulk_def Let_def)
  }
  {
    fix D assume some: "sink = Some D"
    then obtain D1 where d1: "sink1 = Some D1" "D \<subseteq> D1"
      using earlier bulk_loop_sink_grows [of prm e mi False pre 0 D ?w0 None sink1 w1] by auto
    have cont: "bulk_loop prm e mi False (pre @ (k, r) # post) 0 sink ?w0
        = bulk_loop prm e mi False post (Suc (length pre)) (Some (insert r D1)) w2"
      using split step d1(1) by simp
    obtain lo ls lw where l: "bulk_loop prm e mi False post (Suc (length pre)) (Some (insert r D1)) w2
        = (lo, ls, lw)"
      by (cases "bulk_loop prm e mi False post (Suc (length pre)) (Some (insert r D1)) w2")
    then obtain D' where d': "ls = Some D'" "insert r D1 \<subseteq> D'"
        "\<forall>s. lo = Some (Returned s) \<longrightarrow> code s \<noteq> DuplicateKey"
      using bulk_loop_sink_grows [OF l] by auto
    let ?out = "case lo of Some out \<Rightarrow> out | None \<Rightarrow> Returned Status_OK"
    let ?w' = "case lo of Some out \<Rightarrow> lw | None \<Rightarrow> builder_commit prm mi lw"
    have res: "commitBulk prm e bulk mi False sink w = Some (?out, Some D', ?w')"
      using retry stream cont l d'(1) by (simp add: commitBulk_def Let_def split: option.split)
    have nd: "\<forall>s. ?out = Returned s \<longrightarrow> code s \<noteq> DuplicateKey"
      using d'(3) by (auto simp: Status_OK_def split: option.splits)
    show "\<exists>D1 out D' w'.
               sink1 = Some D1 \<and> D \<subseteq> D1 \<and>
               bulk_loop prm e mi False (pre @ (k, r) # post) 0 sink ?w0
                 = bulk_loop prm e mi False post (Suc (length pre)) (Some (insert r D1)) w2 \<and>
               commitBulk prm e bulk mi False sink w = Some (out, Some D', w') \<and>
               insert r D1 \<subseteq> D' \<and>
               (\<forall>s. out = Returned s \<longrightarrow> code s \<noteq> DuplicateKey)"
      using d1 cont res d'(2) nd by blast
  }
qed

text \<open>
  The theorem on the sample builder, for two records with the same key: without a set the
  build stops at the second record; with a set the build is committed and the set holds
  the record id of the second record.
\<close>

theorem commitBulk_duplicates_witness:
  "commitBulk sample_prm sample_env
      \<lparr>sorter = [(([], 1), 8), (([], 1), 7)], isMultiKey = False, keysInserted = 2\<rparr>
      False False None (sample_world [])
     = Some (Returned (Status DuplicateKey ''duplicate key''), None,
         \<lparr>store = \<lparr>entries = [(([], 1), 7)], builderDupsAllowed = False\<rparr>, multikey = False,
          calls = [CallGetBulkBuilder False, CallAddKey ([], 1) 7 (Status OK []),
                   CallAddKey ([], 1) 8 (Status DuplicateKey ''duplicate key'')]\<rparr>) \<and>
   commitBulk sample_prm sample_env
      \<lparr>sorter = [(([], 1), 8), (([], 1), 7)], isMultiKey = False, keysInserted = 2\<rparr>
      False False (Some {}) (sample_world [])
     = Some (Returned Status_OK, Some {8},
         \<lparr>store = \<lparr>entries = [(([], 1), 7)], builderDupsAllowed = False\<rparr>, multikey = False,
          calls = [CallGetBulkBuilder False, CallAddKey ([], 1) 7 (Status OK []),
                   CallAddKey ([], 1) 8 (Status DuplicateKey ''duplicate key''),
                   CallCommit False]\<rparr>)"
proof -
  let ?bulk = "\<lparr>sorter = [(([], 1), 8), (([], 1), 7)], isMultiKey = False, keysInserted = 2\<rparr>
      :: (sample_key, int) BulkBuilder"
  let ?w = "sample_world []"
  let ?st = "Status DuplicateKey ''duplicate key''"
  let ?w1 = "\<lparr>store = \<lparr>entries = [(([], 1), 7)], builderDupsAllowed = False\<rparr>, multikey = False,
          calls = [CallGetBulkBuilder False, CallAddKey ([], 1) 7 (Status OK [])]\<rparr>
          :: (sample_store, sample_key, int) world"
  let ?w2 = "?w1\<lparr>calls := calls ?w1 @ [CallAddKey ([], 1) 8 ?st]\<rparr>"
  have retry: "write_conflict_retry (writeConflict sample_env) 0 = Some 2"
    by (simp add: sample_env_def write_conflict_retry.simps)
  have stream: "sorter_done sample_prm (sorter ?bulk) = [(([], 1), 7)] @ (([], 1), 8) # []"
    by (simp add: sample_prm_def)
  have earlier: "\<And>sink. bulk_loop sample_prm sample_env False False [(([], 1), 7)] 0 sink
      (getBulkBuilder sample_prm False (if isMultiKey ?bulk then setMultikey ?w else ?w))
      = (None, sink, ?w1)"
    by (simp add: sample_defs)
  have awake: "\<not> (False \<and> interruptPending sample_env (length [(([], 1), 7 :: int)]))" by simp
  have answer: "builder_addKey sample_prm ([], 1) 8 ?w1 = (?st, ?w2)"
    by (simp add: sample_defs)
  have dup: "code ?st = DuplicateKey" by simp
  have none: "commitBulk sample_prm sample_env ?bulk False False None ?w
      = Some (Returned ?st, None, ?w2)"
    by (rule commitBulk_duplicates [OF retry stream earlier [of None] awake answer dup,
        THEN conjunct1, THEN mp, OF refl])
  have some: "commitBulk sample_prm sample_env ?bulk False False (Some {}) ?w
     = Some (Returned Status_OK, Some {8}, builder_commit sample_prm False ?w2)"
    using retry by (simp add: commitBulk_def sample_defs)
  have w2: "?w2 = \<lparr>store = \<lparr>entries = [(([], 1), 7)], builderDupsAllowed = False\<rparr>,
      multikey = False,
      calls = [CallGetBulkBuilder False, CallAddKey ([], 1) 7 (Status OK []),
               CallAddKey ([], 1) 8 ?st]\<rparr>"
    by simp
  have w3: "builder_commit sample_prm False ?w2
      = \<lparr>store = \<lparr>entries = [(([], 1), 7)], builderDupsAllowed = False\<rparr>, multikey = False,
         calls = [CallGetBulkBuilder False, CallAddKey ([], 1) 7 (Status OK []),
                  CallAddKey ([], 1) 8 ?st, CallCommit False]\<rparr>"
    by (simp add: sample_defs)
  show ?thesis unfolding none some w3 by simp
qed

section \<open>The multikey flag over sequences of calls\<close>

lemma insert_index_multikey:
  "multikey w \<Longrightarrow> multikey (snd (snd (insert_index prm e obj loc options w)))"
proof -
  assume m: "multikey w"
  obtain r n w1 where l: "insert_loop prm e loc (dupsAllowed options) [] (getKeys prm obj) 0 w = (r, n, w1)"
    by (cases "insert_loop prm e loc (dupsAllowed options) [] (getKeys prm obj) 0 w")
  then have "multikey w1" using insert_loop_multikey [OF l] m by simp
  then show ?thesis using l by (cases r) (simp_all add: insert_index_def setMultikey_def)
qed

lemma remove_loop_multikey: "multikey (snd (remove_loop prm loc d ks n w)) = multikey w"
  by (induction ks arbitrary: n w) (simp_all add: removeOneKey_multikey)

lemma remove_index_multikey:
  "multikey (snd (snd (remove_index prm obj loc options w))) = multikey w"
  using remove_loop_multikey [of prm loc "dupsAllowed options" "getKeys prm obj" 0 w]
  by (simp add: remove_index_def split: prod.split)

lemma update_multikey: "multikey w \<Longrightarrow> multikey (snd (snd (update prm t n w)))"
proof (cases "isValid t")
  case False
  assume "multikey w"
  then show ?thesis using False by (simp add: update_def)
next
  case True
  assume m: "multikey w"
  let ?w1 = "if update_makes_multikey t then setMultikey w else w"
  let ?r = "update_unindex_loop prm (ticket_loc t) (ticket_dupsAllowed t) (removed t) ?w1"
  have m1: "multikey ?w1" using m by (simp add: setMultikey_def)
  have m2: "multikey (snd ?r)" using m1 unfolding update_unindex_loop_multikey .
  have m3: "multikey (snd (update_insert_loop prm (ticket_loc t) (ticket_dupsAllowed t) (added t) (snd ?r)))"
    using m2 unfolding update_insert_loop_multikey .
  show ?thesis
    unfolding update_world [OF True] Let_def using m2 m3 by (cases "fst ?r") simp_all
qed

lemma builder_addKey_multikey: "builder_addKey prm k r w = (st, w1) \<Longrightarrow> multikey w1 = multikey w"
  by (auto simp: builder_addKey_def split: prod.splits)

lemma bulk_loop_multikey:
  "bulk_loop prm e mi dups ds i sink w = (out, sink', w') \<Longrightarrow> multikey w' = multikey w"
proof (induction ds arbitrary: i sink w)
  case Nil
  then show ?case by simp
next
  case (Cons x ds)
  obtain k r where x: "x = (k, r)" by (cases x)
  show ?case
  proof (cases rule: bulk_loop_cases [of mi e i prm dups k r sink w])
    case interrupted
    then show ?thesis using Cons.prems unfolding x by simp
  next
    case (ok st wa)
    have "multikey w' = multikey wa" using Cons.prems unfolding x ok(3) by (rule Cons.IH)
    then show ?thesis using builder_addKey_multikey [OF ok(1)] by simp
  next
    case (skipped st wa)
    have "multikey w' = multikey wa" using Cons.prems unfolding x skipped(3) by (rule Cons.IH)
    then show ?thesis using builder_addKey_multikey [OF skipped(1)] by simp
  next
    case (dropped st wa D)
    have "multikey w' = multikey wa" using Cons.prems unfolding x dropped(5) by (rule Cons.IH)
    then show ?thesis using builder_addKey_multikey [OF dropped(1)] by simp
  next
    case (invariant st wa)
    then show ?thesis using Cons.prems builder_addKey_multikey [OF invariant(1)] unfolding x by simp
  next
    case (failed st wa)
    then show ?thesis using Cons.prems builder_addKey_multikey [OF failed(1)] unfolding x by simp
  qed
qed

lemma commitBulk_multikey:
  assumes "commitBulk prm e bulk mi dups sink w = Some (out, sink', w')" and "multikey w"
  shows "multikey w'"
proof -
  let ?w1 = "if isMultiKey bulk then setMultikey w else w"
  let ?w2 = "getBulkBuilder prm dups ?w1"
  have m2: "multikey ?w2" using assms(2) by (simp add: getBulkBuilder_def setMultikey_def)
  obtain lo ls lw where l: "bulk_loop prm e mi dups (sorter_done prm (sorter bulk)) 0 sink ?w2 = (lo, ls, lw)"
    by (cases "bulk_loop prm e mi dups (sorter_done prm (sorter bulk)) 0 sink ?w2")
  have m3: "multikey lw" using bulk_loop_multikey [OF l] m2 by simp
  have m4: "multikey (builder_commit prm mi lw)" using m3 by (simp add: builder_commit_def)
  have "w' = lw \<or> w' = builder_commit prm mi lw"
    using assms(1) l by (auto simp: commitBulk_def Let_def split: option.splits)
  then show ?thesis using m3 m4 by auto
qed

lemma run_op_multikey:
  assumes "run_op prm x w = Some w'" and "multikey w"
  shows "multikey w'"
proof (cases x)
  case (OpInsert e obj l options)
  then show ?thesis using assms insert_index_multikey [of w prm e obj l options] by auto
next
  case (OpRemove obj l options)
  then show ?thesis using assms remove_index_multikey [of prm obj l options w] by auto
next
  case (OpUpdate t n)
  then show ?thesis using assms update_multikey [of w prm t n] by auto
next
  case (OpBulkInsert b obj l options n)
  then show ?thesis using assms by (auto simp: BulkBuilder_insert_def Let_def)
next
  case (OpCommitBulk e b mi dups sink)
  then obtain out sink' where "commitBulk prm e b mi dups sink w = Some (out, sink', w')"
    using assms(1) by auto
  then show ?thesis using assms(2) by (rule commitBulk_multikey)
qed

lemma run_op_returns: "op_returns x \<Longrightarrow> \<exists>w'. run_op prm x w = Some w'"
proof (cases x)
  case (OpCommitBulk e b mi dups sink)
  assume "op_returns x"
  then obtain n where "\<not> writeConflict e (0 + n)" using OpCommitBulk by auto
  then obtain a where "write_conflict_retry (writeConflict e) 0 = Some a"
    using write_conflict_retry_returns by blast
  then show ?thesis using OpCommitBulk by (simp add: commitBulk_def Let_def)
qed simp_all

text \<open>
  Claim C9. For every sequence of calls of \<^verbatim>\<open>insert\<close>, \<^verbatim>\<open>remove\<close>, \<^verbatim>\<open>update\<close>,
  \<^verbatim>\<open>BulkBuilder::insert\<close> and \<^verbatim>\<open>commitBulk\<close>, with any arguments and whatever their
  outcomes (a status, an exception, a failed invariant): if the multikey flag is set
  before the sequence, it is set in the world the sequence leaves. The sequence leaves a
  world whenever each of its calls returns, that is whenever the first unit of work of
  each \<^verbatim>\<open>commitBulk\<close> commits at some attempt.
\<close>

theorem multikey_never_cleared:
  "(list_all op_returns ops \<longrightarrow> (\<exists>w'. run_ops prm ops w = Some w')) \<and>
   (\<forall>w'. run_ops prm ops w = Some w' \<and> multikey w \<longrightarrow> multikey w')"
proof (induction ops arbitrary: w)
  case Nil
  show ?case by simp
next
  case (Cons x ops)
  show ?case
  proof (intro conjI impI allI)
    assume "list_all op_returns (x # ops)"
    then have x: "op_returns x" and r: "list_all op_returns ops" by simp_all
    obtain w1 where w1: "run_op prm x w = Some w1" using run_op_returns [OF x] by blast
    obtain w' where "run_ops prm ops w1 = Some w'" using Cons.IH [of w1] r by blast
    then have "run_ops prm (x # ops) w = Some w'" using w1 by simp
    then show "\<exists>w'. run_ops prm (x # ops) w = Some w'" by (rule exI)
  next
    fix w' assume a: "run_ops prm (x # ops) w = Some w' \<and> multikey w"
    then obtain w1 where w1: "run_op prm x w = Some w1" "run_ops prm ops w1 = Some w'"
      by (cases "run_op prm x w") simp_all
    have "multikey w1" using w1(1) a by (blast intro: run_op_multikey)
    then show "multikey w'" using Cons.IH [of w1] w1(2) by blast
  qed
qed

text \<open>
  The theorem on the sample store: an insertion of a document with two keys sets the
  flag; the removal of that document and a bulk build of single-key records leave it set.
\<close>

theorem multikey_never_cleared_witness:
  "list_all op_returns
     [OpRemove [1, 2] 7 \<lparr>dupsAllowed = False\<rparr>,
      OpCommitBulk sample_env \<lparr>sorter = [(([], 3), 9)], isMultiKey = False, keysInserted = 1\<rparr>
        False False None] \<and>
   multikey (snd (snd (insert_index sample_prm sample_env [1, 2] 7 \<lparr>dupsAllowed = False\<rparr>
      (sample_world [])))) \<and>
   run_ops sample_prm
     [OpRemove [1, 2] 7 \<lparr>dupsAllowed = False\<rparr>,
      OpCommitBulk sample_env \<lparr>sorter = [(([], 3), 9)], isMultiKey = False, keysInserted = 1\<rparr>
        False False None]
     (snd (snd (insert_index sample_prm sample_env [1, 2] 7 \<lparr>dupsAllowed = False\<rparr>
        (sample_world []))))
   = Some \<lparr>store = \<lparr>entries = [(([], 3), 9)], builderDupsAllowed = False\<rparr>, multikey = True,
        calls = [CallInsert ([], 1) 7 False (Status OK []), CallInsert ([], 2) 7 False (Status OK []),
                 CallSetMultikey, CallUnindex ([], 1) 7 False None, CallUnindex ([], 2) 7 False None,
                 CallGetBulkBuilder False, CallAddKey ([], 3) 9 (Status OK []), CallCommit False]\<rparr>"
proof -
  let ?bulk = "\<lparr>sorter = [(([], 3), 9)], isMultiKey = False, keysInserted = 1\<rparr>
      :: (sample_key, int) BulkBuilder"
  let ?ops = "[OpRemove [1, 2] 7 \<lparr>dupsAllowed = False\<rparr>,
      OpCommitBulk sample_env ?bulk False False None] :: (sample_key, int, int list, unit) op list"
  let ?w1 = "\<lparr>store = \<lparr>entries = [(([], 1), 7), (([], 2), 7)], builderDupsAllowed = False\<rparr>,
      multikey = True,
      calls = [CallInsert ([], 1) 7 False (Status OK []), CallInsert ([], 2) 7 False (Status OK []),
               CallSetMultikey]\<rparr> :: (sample_store, sample_key, int) world"
  let ?w2 = "\<lparr>store = \<lparr>entries = [], builderDupsAllowed = False\<rparr>, multikey = True,
      calls = [CallInsert ([], 1) 7 False (Status OK []), CallInsert ([], 2) 7 False (Status OK []),
               CallSetMultikey, CallUnindex ([], 1) 7 False None, CallUnindex ([], 2) 7 False None]\<rparr>
      :: (sample_store, sample_key, int) world"
  let ?w3 = "\<lparr>store = \<lparr>entries = [(([], 3), 9)], builderDupsAllowed = False\<rparr>, multikey = True,
        calls = [CallInsert ([], 1) 7 False (Status OK []), CallInsert ([], 2) 7 False (Status OK []),
                 CallSetMultikey, CallUnindex ([], 1) 7 False None, CallUnindex ([], 2) 7 False None,
                 CallGetBulkBuilder False, CallAddKey ([], 3) 9 (Status OK []), CallCommit False]\<rparr>
        :: (sample_store, sample_key, int) world"
  have ret: "list_all op_returns ?ops"
  proof -
    have "\<not> writeConflict sample_env 2" by (simp add: sample_env_def)
    then have "\<exists>n. \<not> writeConflict sample_env n" by (rule exI)
    then show ?thesis by simp
  qed
  have ins: "insert_index sample_prm sample_env [1, 2] 7 \<lparr>dupsAllowed = False\<rparr> (sample_world [])
      = (Status_OK, 2, ?w1)"
    by (simp add: insert_index_def sample_defs word_sless_alt)
  have rem: "remove_index sample_prm [1, 2] 7 \<lparr>dupsAllowed = False\<rparr> ?w1 = (Status_OK, 2, ?w2)"
    by (simp add: remove_index_def sample_defs)
  have retry: "write_conflict_retry (writeConflict sample_env) 0 = Some 2"
    by (simp add: sample_env_def write_conflict_retry.simps)
  have cb: "commitBulk sample_prm sample_env ?bulk False False None ?w2
      = Some (Returned Status_OK, None, ?w3)"
    using retry by (simp add: commitBulk_def sample_defs)
  have run: "run_ops sample_prm ?ops ?w1 = Some ?w3"
    by (simp add: rem cb)
  have m1: "multikey ?w1" by simp
  have "multikey ?w3"
    by (rule multikey_never_cleared [THEN conjunct2, THEN spec, THEN mp, OF conjI [OF run m1]])
  then show ?thesis unfolding ins using ret run by simp
qed

end
